theory Spec2Isabelle
  imports Main "HOL-Library.Char_ord" "HOL-Library.List_Lexorder"
begin

section \<open>String sorting algorithms of \<^verbatim>\<open>StringSortTester\<close> (src/main.cpp)\<close>

text \<open>
  The program sorts a \<^verbatim>\<open>std::vector<std::string>\<close> in place and counts comparisons in the
  member \<^verbatim>\<open>comps\<close>.  The vector is a list, the counter a natural number (a \<^verbatim>\<open>size_t\<close>
  that only ever grows by one; it cannot reach \<open>2 ^ 64\<close> on a vector that fits in memory),
  and every function takes and returns the pair of both.

  The elements are values of a type \<open>'a\<close> whose bytes are read by \<open>key\<close>.  The program's
  own elements are strings, \<open>key = (\<lambda>s. s)\<close>; the code only compares the bytes of elements
  and moves elements around, so the same text also runs on elements that carry a mark
  beside their bytes, which is what a statement about the relative order of equal
  strings needs.

  An index outside a vector is undefined behaviour in C++; here it is the result
  \<open>Inl OutOfBounds\<close>.  \<open>Inl Diverges\<close> stands for a call that never returns, and
  \<open>Inl OutOfFuel\<close> says that the bound on the recursion depth, given from outside, was
  too small.
\<close>

datatype fault = OutOfBounds | Diverges | OutOfFuel

type_synonym 'a st = "'a list \<times> nat"

subsection \<open>Integer conversions\<close>

text \<open>\<^verbatim>\<open>size_t\<close> is 64 bits wide, \<^verbatim>\<open>int\<close> 32 bits; a length is below \<open>2 ^ 64\<close>.\<close>

definition size_t_sub :: "nat \<Rightarrow> nat \<Rightarrow> nat" where
  "size_t_sub a b = (a + 2 ^ 64 - b mod 2 ^ 64) mod 2 ^ 64"

definition to_int :: "nat \<Rightarrow> int" where
  "to_int n = (let m = int (n mod 2 ^ 32) in if m < 2 ^ 31 then m else m - 2 ^ 32)"

definition in_range :: "'a list \<Rightarrow> int \<Rightarrow> bool" where
  "in_range arr i \<longleftrightarrow> 0 \<le> i \<and> i < int (length arr)"

subsection \<open>The alphabet table and the rank of a character\<close>

definition R :: nat where
  "R = 74"

definition cutoff :: nat where
  "cutoff = 15"

definition alpha :: string where
  "alpha = ''ABCDEFGHIJKLMNOPQRSTUVWXYZ'' @ ''abcdefghijklmnopqrstuvwxyz'' @
           ''0123456789'' @ ''!@#%:;^&*()-.''"

text \<open>\<^verbatim>\<open>std::string::find(char)\<close>: the first position of the character, or \<^verbatim>\<open>npos\<close>.\<close>

fun find_pos :: "string \<Rightarrow> char \<Rightarrow> nat option" where
  "find_pos [] c = None"
| "find_pos (x # xs) c = (if x = c then Some 0 else map_option Suc (find_pos xs c))"

definition charToIndex :: "char \<Rightarrow> int" where
  "charToIndex c = (case find_pos alpha c of None \<Rightarrow> - 1 | Some pos \<Rightarrow> int pos)"

definition charAt :: "string \<Rightarrow> nat \<Rightarrow> int" where
  "charAt s d = (if d < length s then charToIndex (s ! d) else - 1)"

subsection \<open>PrefixMergeSort: \<^verbatim>\<open>mergeSortLCP\<close>\<close>

text \<open>
  The merge loop compares the heads of the two halves \<open>[left, mid)\<close> and \<open>[mid, right)\<close>
  with \<^verbatim>\<open><=\<close> on whole strings (the byte order of \<^verbatim>\<open>std::string\<close>, here the
  lexicographic order on \<open>char list\<close>) and counts each comparison; \<open>copy_rest\<close> is either of
  the two loops that drain a half, \<open>copy_into\<close> the final \<^verbatim>\<open>std::copy\<close>.
\<close>

function merge_loop :: "('a \<Rightarrow> string) \<Rightarrow> 'a list \<Rightarrow> nat \<Rightarrow> nat \<Rightarrow> nat \<Rightarrow> nat \<Rightarrow> 'a list \<Rightarrow> nat \<Rightarrow> fault + (nat \<times> nat \<times> 'a list \<times> nat)" where
  "merge_loop key arr mid right i j temp c =
    (if i < mid \<and> j < right then
       (if length arr \<le> i \<or> length arr \<le> j then Inl OutOfBounds
        else if key (arr ! i) \<le> key (arr ! j) then
          merge_loop key arr mid right (i + 1) j (temp @ [arr ! i]) (c + 1)
        else merge_loop key arr mid right i (j + 1) (temp @ [arr ! j]) (c + 1))
     else Inr (i, j, temp, c))"
  by pat_completeness auto
termination
  by (relation "measure (\<lambda>(key, arr, mid, right, i, j, temp, c). (mid - i) + (right - j))") auto

function copy_rest :: "'a list \<Rightarrow> nat \<Rightarrow> nat \<Rightarrow> 'a list \<Rightarrow> fault + 'a list" where
  "copy_rest arr i stop temp =
    (if i < stop then
       (if length arr \<le> i then Inl OutOfBounds
        else copy_rest arr (i + 1) stop (temp @ [arr ! i]))
     else Inr temp)"
  by pat_completeness auto
termination
  by (relation "measure (\<lambda>(arr, i, stop, temp). stop - i)") auto

definition copy_into :: "'a list \<Rightarrow> 'a list \<Rightarrow> nat \<Rightarrow> fault + 'a list" where
  "copy_into temp arr left =
    (if length arr < left + length temp then Inl OutOfBounds
     else Inr (take left arr @ temp @ drop (left + length temp) arr))"

declare merge_loop.simps [simp del] copy_rest.simps [simp del]

text \<open>
  \<^verbatim>\<open>right - left\<close> is unsigned: for \<open>right < left\<close> it wraps around to a large value, the
  test fails, and the first recursive call is again on a range with \<open>right < mid\<close>, without
  end.  No call that starts from \<open>run\<close> is of that kind.
\<close>

function mergeSortLCP :: "('a \<Rightarrow> string) \<Rightarrow> 'a st \<Rightarrow> nat \<Rightarrow> nat \<Rightarrow> fault + 'a st" where
  "mergeSortLCP key (arr, c) left right =
    (if right < left then Inl Diverges
     else if right - left \<le> 1 then Inr (arr, c)
     else let mid = (left + right) div 2 in
       case mergeSortLCP key (arr, c) left mid of
         Inl e \<Rightarrow> Inl e
       | Inr st1 \<Rightarrow>
       case mergeSortLCP key st1 mid right of
         Inl e \<Rightarrow> Inl e
       | Inr (arr2, c2) \<Rightarrow>
       case merge_loop key arr2 mid right left mid [] c2 of
         Inl e \<Rightarrow> Inl e
       | Inr (i, j, temp, c3) \<Rightarrow>
       case copy_rest arr2 i mid temp of
         Inl e \<Rightarrow> Inl e
       | Inr temp1 \<Rightarrow>
       case copy_rest arr2 j right temp1 of
         Inl e \<Rightarrow> Inl e
       | Inr temp2 \<Rightarrow>
       case copy_into temp2 arr2 left of
         Inl e \<Rightarrow> Inl e
       | Inr arr3 \<Rightarrow> Inr (arr3, c3))"
  by pat_completeness auto
termination
  by (relation "measure (\<lambda>(key, st, left, right). right - left)") auto

declare mergeSortLCP.simps [simp del]

subsection \<open>TernaryQuickSort\<close>

text \<open>
  \<^verbatim>\<open>const std::string& pivot = arr[lo]\<close> is a reference into the vector, not a copy: every
  comparison reads what the slot \<open>lo\<close> holds at that moment, so the loop reads
  \<open>arr ! nat lo\<close> again in each iteration.  Indices are \<^verbatim>\<open>int\<close>; they stay between
  \<open>lo - 1\<close> and \<open>hi + 1\<close>.
\<close>

definition swap :: "'a list \<Rightarrow> int \<Rightarrow> int \<Rightarrow> 'a list" where
  "swap arr a b = (arr[nat a := arr ! nat b])[nat b := arr ! nat a]"

function tqs_loop :: "('a \<Rightarrow> string) \<Rightarrow> 'a st \<Rightarrow> int \<Rightarrow> int \<Rightarrow> int \<Rightarrow> int \<Rightarrow> fault + ('a st \<times> int \<times> int)" where
  "tqs_loop key (arr, c) lo lt i gt =
    (if i \<le> gt then
       (if \<not> in_range arr i then Inl OutOfBounds
        else if key (arr ! nat i) < key (arr ! nat lo) then
          (if \<not> in_range arr lt then Inl OutOfBounds
           else tqs_loop key (swap arr lt i, c + 1) lo (lt + 1) (i + 1) gt)
        else if key (arr ! nat lo) < key (arr ! nat i) then
          (if \<not> in_range arr gt then Inl OutOfBounds
           else tqs_loop key (swap arr i gt, c + 1) lo lt i (gt - 1))
        else tqs_loop key (arr, c + 1) lo lt (i + 1) gt)
     else Inr ((arr, c), lt, gt))"
  by pat_completeness auto
termination
  by (relation "measure (\<lambda>(key, st, lo, lt, i, gt). nat (gt + 1 - i))") auto

declare tqs_loop.simps [simp del]

text \<open>The cursors stay ordered, which bounds both recursive calls.\<close>

lemma tqs_loop_bounds:
  "tqs_loop key st lo lt i gt = Inr (st', lt', gt') \<Longrightarrow> lt < i \<Longrightarrow> i \<le> gt + 1 \<Longrightarrow>
   lt \<le> lt' \<and> lt' \<le> gt' \<and> gt' \<le> gt"
proof (induction key st lo lt i gt rule: tqs_loop.induct)
  case (1 key arr c lo lt i gt)
  note eq = "1.prems"(1) [unfolded tqs_loop.simps [of key arr c lo lt i gt]]
  show ?case
  proof (cases "i \<le> gt")
    case False
    with eq "1.prems" show ?thesis by simp
  next
    case True
    note i = True
    show ?thesis
    proof (cases "in_range arr i")
      case False
      with eq i show ?thesis by simp
    next
      case r: True
      consider (less) "key (arr ! nat i) < key (arr ! nat lo)"
        | (greater) "\<not> key (arr ! nat i) < key (arr ! nat lo)" "key (arr ! nat lo) < key (arr ! nat i)"
        | (equal) "\<not> key (arr ! nat i) < key (arr ! nat lo)" "\<not> key (arr ! nat lo) < key (arr ! nat i)"
        by blast
      then show ?thesis
      proof cases
        case less
        show ?thesis
        proof (cases "in_range arr lt")
          case False
          with eq i r less show ?thesis by simp
        next
          case True
          with eq i r less have "tqs_loop key (swap arr lt i, c + 1) lo (lt + 1) (i + 1) gt = Inr (st', lt', gt')"
            by simp
          from "1.IH"(1) [OF i _ less _ this] r True "1.prems" i show ?thesis by simp
        qed
      next
        case greater
        show ?thesis
        proof (cases "in_range arr gt")
          case False
          with eq i r greater show ?thesis by simp
        next
          case True
          with eq i r greater have "tqs_loop key (swap arr i gt, c + 1) lo lt i (gt - 1) = Inr (st', lt', gt')"
            by simp
          from "1.IH"(2) [OF i _ greater _ this] r True "1.prems" i show ?thesis by simp
        qed
      next
        case equal
        with eq i r have "tqs_loop key (arr, c + 1) lo lt (i + 1) gt = Inr (st', lt', gt')"
          by simp
        from "1.IH"(3) [OF i _ equal this] r "1.prems" i show ?thesis by simp
      qed
    qed
  qed
qed

function ternaryQuickSort :: "('a \<Rightarrow> string) \<Rightarrow> 'a st \<Rightarrow> int \<Rightarrow> int \<Rightarrow> fault + 'a st" where
  "ternaryQuickSort key (arr, c) lo hi =
    (if lo \<ge> hi then Inr (arr, c)
     else if \<not> in_range arr lo then Inl OutOfBounds
     else case tqs_loop key (arr, c) lo lo (lo + 1) hi of
            Inl e \<Rightarrow> Inl e
          | Inr (st1, lt, gt) \<Rightarrow>
             (case ternaryQuickSort key st1 lo (lt - 1) of
                Inl e \<Rightarrow> Inl e
              | Inr st2 \<Rightarrow> ternaryQuickSort key st2 (gt + 1) hi))"
  by pat_completeness auto
termination
proof (relation "measure (\<lambda>(key, st, lo, hi). nat (hi - lo))", goal_cases)
  case 1
  show ?case by simp
next
  case (2 key arr c lo hi x2 st1 y lt gt)
  then have "tqs_loop key (arr, c) lo lo (lo + 1) hi = Inr (st1, lt, gt)" by simp
  from tqs_loop_bounds [OF this] 2 show ?case by simp
next
  case (3 key arr c lo hi x2 st1 y lt gt x2a)
  then have "tqs_loop key (arr, c) lo lo (lo + 1) hi = Inr (st1, lt, gt)" by simp
  from tqs_loop_bounds [OF this] 3 show ?case by simp
qed

declare ternaryQuickSort.simps [simp del]


subsection \<open>Suffix comparison and the quicksort used below the cutoff\<close>

text \<open>
  \<^verbatim>\<open>suffixLess\<close> compares plain \<^verbatim>\<open>char\<close>s, which are signed on the usual targets (x86-64,
  AArch64 Darwin); for 7-bit characters this is the byte order.  It counts every
  character pair it looks at and once more when it falls out of the loop.
\<close>

definition schar :: "char \<Rightarrow> int" where
  "schar x = (let n = of_char x in if n < 128 then n else n - 256)"

definition char_lt :: "char \<Rightarrow> char \<Rightarrow> bool" where
  "char_lt x y \<longleftrightarrow> schar x < schar y"

function suffixLess_loop :: "string \<Rightarrow> string \<Rightarrow> nat \<Rightarrow> nat \<Rightarrow> bool \<times> nat" where
  "suffixLess_loop a b i c =
    (if i < length a \<and> i < length b then
       (if char_lt (a ! i) (b ! i) then (True, c + 1)
        else if char_lt (b ! i) (a ! i) then (False, c + 1)
        else suffixLess_loop a b (i + 1) (c + 1))
     else (length a < length b, c + 1))"
  by pat_completeness auto
termination
  by (relation "measure (\<lambda>(a, b, i, c). length a - i)") auto

declare suffixLess_loop.simps [simp del]

definition suffixLess :: "string \<Rightarrow> string \<Rightarrow> nat \<Rightarrow> nat \<Rightarrow> bool \<times> nat" where
  "suffixLess a b d c = suffixLess_loop a b d c"

function tqss_loop :: "('a \<Rightarrow> string) \<Rightarrow> 'a st \<Rightarrow> int \<Rightarrow> int \<Rightarrow> int \<Rightarrow> int \<Rightarrow> nat \<Rightarrow> fault + ('a st \<times> int \<times> int)" where
  "tqss_loop key (arr, c) lo lt i gt d =
    (if i \<le> gt then
       (if \<not> in_range arr i then Inl OutOfBounds
        else case suffixLess (key (arr ! nat i)) (key (arr ! nat lo)) d (c + 1) of
          (True, c1) \<Rightarrow>
            (if \<not> in_range arr lt then Inl OutOfBounds
             else tqss_loop key (swap arr lt i, c1) lo (lt + 1) (i + 1) gt d)
        | (False, c1) \<Rightarrow>
            (case suffixLess (key (arr ! nat lo)) (key (arr ! nat i)) d c1 of
               (True, c2) \<Rightarrow>
                 (if \<not> in_range arr gt then Inl OutOfBounds
                  else tqss_loop key (swap arr i gt, c2) lo lt i (gt - 1) d)
             | (False, c2) \<Rightarrow> tqss_loop key (arr, c2) lo lt (i + 1) gt d))
     else Inr ((arr, c), lt, gt))"
  by pat_completeness auto
termination
  by (relation "measure (\<lambda>(key, st, lo, lt, i, gt, d). nat (gt + 1 - i))") auto

declare tqss_loop.simps [simp del]


lemma tqss_loop_bounds:
  "tqss_loop key st lo lt i gt d = Inr (st', lt', gt') \<Longrightarrow> lt < i \<Longrightarrow> i \<le> gt + 1 \<Longrightarrow>
   lt \<le> lt' \<and> lt' \<le> gt' \<and> gt' \<le> gt"
proof (induction key st lo lt i gt d rule: tqss_loop.induct)
  case (1 key arr c lo lt i gt d)
  note eq = "1.prems"(1) [unfolded tqss_loop.simps [of key arr c lo lt i gt d]]
  show ?case
  proof (cases "i \<le> gt")
    case False
    with eq "1.prems" show ?thesis by simp
  next
    case True
    note i = True
    show ?thesis
    proof (cases "in_range arr i")
      case False
      with eq i show ?thesis by simp
    next
      case r: True
      obtain b1 c1 where s1: "suffixLess (key (arr ! nat i)) (key (arr ! nat lo)) d (c + 1) = (b1, c1)"
        by (cases "suffixLess (key (arr ! nat i)) (key (arr ! nat lo)) d (c + 1)")
      obtain b2 c2 where s2: "suffixLess (key (arr ! nat lo)) (key (arr ! nat i)) d c1 = (b2, c2)"
        by (cases "suffixLess (key (arr ! nat lo)) (key (arr ! nat i)) d c1")
      show ?thesis
      proof (cases b1)
        case True
        show ?thesis
        proof (cases "in_range arr lt")
          case False
          with eq i r s1 True show ?thesis by simp
        next
          case l: True
          with eq i r s1 True
          have "tqss_loop key (swap arr lt i, c1) lo (lt + 1) (i + 1) gt d = Inr (st', lt', gt')"
            by simp
          from "1.IH"(1) [OF i _ s1 [symmetric] _ _ this] r l True "1.prems" i show ?thesis by simp
        qed
      next
        case b1: False
        show ?thesis
        proof (cases b2)
          case True
          show ?thesis
          proof (cases "in_range arr gt")
            case False
            with eq i r s1 s2 b1 True show ?thesis by simp
          next
            case g: True
            with eq i r s1 s2 b1 True
            have "tqss_loop key (swap arr i gt, c2) lo lt i (gt - 1) d = Inr (st', lt', gt')"
              by simp
            from "1.IH"(2) [OF i _ s1 [symmetric] _ s2 [symmetric] _ _ this] r g b1 True "1.prems" i
            show ?thesis by simp
          qed
        next
          case False
          with eq i r s1 s2 b1
          have "tqss_loop key (arr, c2) lo lt (i + 1) gt d = Inr (st', lt', gt')"
            by simp
          from "1.IH"(3) [OF i _ s1 [symmetric] _ s2 [symmetric] _ this] r b1 False "1.prems" i
          show ?thesis by simp
        qed
      qed
    qed
  qed
qed

function ternaryQuickSortSuffix :: "('a \<Rightarrow> string) \<Rightarrow> 'a st \<Rightarrow> int \<Rightarrow> int \<Rightarrow> nat \<Rightarrow> fault + 'a st" where
  "ternaryQuickSortSuffix key (arr, c) lo hi d =
    (if lo \<ge> hi then Inr (arr, c)
     else if \<not> in_range arr lo then Inl OutOfBounds
     else case tqss_loop key (arr, c) lo lo (lo + 1) hi d of
            Inl e \<Rightarrow> Inl e
          | Inr (st1, lt, gt) \<Rightarrow>
             (case ternaryQuickSortSuffix key st1 lo (lt - 1) d of
                Inl e \<Rightarrow> Inl e
              | Inr st2 \<Rightarrow> ternaryQuickSortSuffix key st2 (gt + 1) hi d))"
  by pat_completeness auto
termination
proof (relation "measure (\<lambda>(key, st, lo, hi, d). nat (hi - lo))", goal_cases)
  case 1
  show ?case by simp
next
  case (2 key arr c lo hi d x2 st1 y lt gt)
  then have "tqss_loop key (arr, c) lo lo (lo + 1) hi d = Inr (st1, lt, gt)" by simp
  from tqss_loop_bounds [OF this] 2 show ?case by simp
next
  case (3 key arr c lo hi d x2 st1 y lt gt x2a)
  then have "tqss_loop key (arr, c) lo lo (lo + 1) hi d = Inr (st1, lt, gt)" by simp
  from tqss_loop_bounds [OF this] 3 show ?case by simp
qed

declare ternaryQuickSortSuffix.simps [simp del]

subsection \<open>MsdRadixCutoff and MsdRadixPure\<close>

text \<open>
  The five loops of one radix pass over \<open>[left, right)\<close> at depth \<open>d\<close>: counting,
  prefix sums, placement into \<open>aux\<close>, copying back, and the recursion into the buckets
  \<open>0..R-1\<close>.  \<open>count\<close> is the vector of \<open>R + 2\<close> counters.  \<^verbatim>\<open>std::move\<close> out of \<open>arr[i]\<close>
  leaves a slot that is written again by the copy loop before anything reads it, so a
  move is a copy here.  \<open>emp\<close> is a default-constructed element, which fills \<open>aux\<close> at first.

  The recursion descends one character per level; \<open>fuel\<close> bounds the number of levels,
  and \<open>rec\<close> is the recursive call of the level below.
\<close>

function count_pass :: "('a \<Rightarrow> string) \<Rightarrow> 'a list \<Rightarrow> nat \<Rightarrow> nat \<Rightarrow> nat \<Rightarrow> nat list \<Rightarrow> nat \<Rightarrow> fault + (nat list \<times> nat)" where
  "count_pass key arr d i right count c =
    (if i < right then
       (if length arr \<le> i then Inl OutOfBounds
        else let k = charAt (key (arr ! i)) d + 2 in
          if k < 0 \<or> int (length count) \<le> k then Inl OutOfBounds
          else count_pass key arr d (i + 1) right (count[nat k := count ! nat k + 1]) (c + 1))
     else Inr (count, c))"
  by pat_completeness auto
termination
  by (relation "measure (\<lambda>(key, arr, d, i, right, count, c). right - i)") auto

function prefix_pass :: "nat \<Rightarrow> nat list \<Rightarrow> fault + nat list" where
  "prefix_pass r count =
    (if r < R + 1 then
       (if length count \<le> r + 1 then Inl OutOfBounds
        else prefix_pass (r + 1) (count[r + 1 := count ! (r + 1) + count ! r]))
     else Inr count)"
  by pat_completeness auto
termination
  by (relation "measure (\<lambda>(r, count). R + 1 - r)") auto

function place_pass :: "('a \<Rightarrow> string) \<Rightarrow> 'a list \<Rightarrow> nat \<Rightarrow> nat \<Rightarrow> nat \<Rightarrow> nat list \<Rightarrow> 'a list \<Rightarrow> fault + (nat list \<times> 'a list)" where
  "place_pass key arr d i right count aux =
    (if i < right then
       (if length arr \<le> i then Inl OutOfBounds
        else let k = charAt (key (arr ! i)) d + 1 in
          if k < 0 \<or> int (length count) \<le> k then Inl OutOfBounds
          else let p = count ! nat k in
            if length aux \<le> p then Inl OutOfBounds
            else place_pass key arr d (i + 1) right (count[nat k := p + 1]) (aux[p := arr ! i]))
     else Inr (count, aux))"
  by pat_completeness auto
termination
  by (relation "measure (\<lambda>(key, arr, d, i, right, count, aux). right - i)") auto

function copy_back :: "'a list \<Rightarrow> nat \<Rightarrow> 'a list \<Rightarrow> nat \<Rightarrow> fault + 'a list" where
  "copy_back arr left aux i =
    (if i < length aux then
       (if length arr \<le> left + i then Inl OutOfBounds
        else copy_back (arr[left + i := aux ! i]) left aux (i + 1))
     else Inr arr)"
  by pat_completeness auto
termination
  by (relation "measure (\<lambda>(arr, left, aux, i). length aux - i)") auto

function bucket_loop :: "('a st \<Rightarrow> nat \<Rightarrow> nat \<Rightarrow> fault + 'a st) \<Rightarrow> nat list \<Rightarrow> nat \<Rightarrow> nat \<Rightarrow> 'a st \<Rightarrow> fault + 'a st" where
  "bucket_loop rec count left r st =
    (if r < R then
       (if length count \<le> r + 1 then Inl OutOfBounds
        else case rec st (left + count ! r) (left + count ! (r + 1)) of
               Inl e \<Rightarrow> Inl e
             | Inr st' \<Rightarrow> bucket_loop rec count left (r + 1) st')
     else Inr st)"
  by pat_completeness auto
termination
  by (relation "measure (\<lambda>(rec, count, left, r, st). R - r)") auto

declare count_pass.simps [simp del] prefix_pass.simps [simp del] place_pass.simps [simp del]
  copy_back.simps [simp del] bucket_loop.simps [simp del]

definition radix_pass :: "('a st \<Rightarrow> nat \<Rightarrow> nat \<Rightarrow> fault + 'a st) \<Rightarrow> ('a \<Rightarrow> string) \<Rightarrow> 'a \<Rightarrow> 'a st \<Rightarrow> nat \<Rightarrow> nat \<Rightarrow> nat \<Rightarrow> fault + 'a st" where
  "radix_pass rec key emp st left right d =
    (case st of (arr, c) \<Rightarrow>
     case count_pass key arr d left right (replicate (R + 2) 0) c of
       Inl e \<Rightarrow> Inl e
     | Inr (count1, c1) \<Rightarrow>
     case prefix_pass 0 count1 of
       Inl e \<Rightarrow> Inl e
     | Inr count2 \<Rightarrow>
     case place_pass key arr d left right count2 (replicate (right - left) emp) of
       Inl e \<Rightarrow> Inl e
     | Inr (count3, aux) \<Rightarrow>
     case copy_back arr left aux 0 of
       Inl e \<Rightarrow> Inl e
     | Inr arr1 \<Rightarrow> bucket_loop rec count3 left 0 (arr1, c1))"

fun msdRadixSort :: "nat \<Rightarrow> ('a \<Rightarrow> string) \<Rightarrow> 'a \<Rightarrow> 'a st \<Rightarrow> nat \<Rightarrow> nat \<Rightarrow> nat \<Rightarrow> fault + 'a st" where
  "msdRadixSort fuel key emp st left right d =
    (if right \<le> left + 1 then Inr st
     else if right - left \<le> cutoff then
       ternaryQuickSortSuffix key st (to_int left) (to_int (right - 1)) d
     else case fuel of
       0 \<Rightarrow> Inl OutOfFuel
     | Suc n \<Rightarrow> radix_pass (\<lambda>st' l r. msdRadixSort n key emp st' l r (d + 1)) key emp st left right d)"

fun msdRadixSortPure :: "nat \<Rightarrow> ('a \<Rightarrow> string) \<Rightarrow> 'a \<Rightarrow> 'a st \<Rightarrow> nat \<Rightarrow> nat \<Rightarrow> nat \<Rightarrow> fault + 'a st" where
  "msdRadixSortPure fuel key emp st left right d =
    (if right \<le> left + 1 then Inr st
     else case fuel of
       0 \<Rightarrow> Inl OutOfFuel
     | Suc n \<Rightarrow> radix_pass (\<lambda>st' l r. msdRadixSortPure n key emp st' l r (d + 1)) key emp st left right d)"

declare msdRadixSort.simps [simp del] msdRadixSortPure.simps [simp del]

subsection \<open>\<^verbatim>\<open>run\<close>\<close>

text \<open>
  \<^verbatim>\<open>std::sort\<close> is library code: \<open>std_sort\<close> stands for it with the counting comparator
  of \<^verbatim>\<open>run\<close>, giving the sorted vector and the number of calls of the comparator.
  \<open>comps0\<close> is the value the member \<^verbatim>\<open>comps\<close> holds when \<^verbatim>\<open>run\<close> is called; the result
  holds the \<^verbatim>\<open>SortResult\<close> (without its time), the vector and the member \<^verbatim>\<open>comps\<close>
  afterwards.  \<^verbatim>\<open>arr.size() - 1\<close> is computed in \<^verbatim>\<open>size_t\<close> and converted to \<^verbatim>\<open>int\<close>.
\<close>

datatype Algo = StdQuick | StdMergeLCP | TernaryQuick | MsdRadix | MsdRadixPure

record SortResult =
  comps :: nat

definition dispatch :: "('a list \<Rightarrow> 'a list \<times> nat) \<Rightarrow> nat \<Rightarrow> ('a \<Rightarrow> string) \<Rightarrow> 'a \<Rightarrow> Algo \<Rightarrow> 'a st \<Rightarrow> fault + 'a st" where
  "dispatch std_sort fuel key emp algo st =
    (case st of (arr, c) \<Rightarrow>
     case algo of
       StdQuick \<Rightarrow> (case std_sort arr of (arr', n) \<Rightarrow> Inr (arr', c + n))
     | StdMergeLCP \<Rightarrow> mergeSortLCP key (arr, c) 0 (length arr)
     | TernaryQuick \<Rightarrow> ternaryQuickSort key (arr, c) 0 (to_int (size_t_sub (length arr) 1))
     | MsdRadix \<Rightarrow> msdRadixSort fuel key emp (arr, c) 0 (length arr) 0
     | MsdRadixPure \<Rightarrow> msdRadixSortPure fuel key emp (arr, c) 0 (length arr) 0)"

definition run :: "('a list \<Rightarrow> 'a list \<times> nat) \<Rightarrow> nat \<Rightarrow> ('a \<Rightarrow> string) \<Rightarrow> 'a \<Rightarrow> Algo \<Rightarrow> nat \<Rightarrow> 'a list \<Rightarrow> fault + (SortResult \<times> 'a list \<times> nat)" where
  "run std_sort fuel key emp algo comps0 arr =
    (case dispatch std_sort fuel key emp algo (arr, 0) of
       Inl e \<Rightarrow> Inl e
     | Inr (arr', c) \<Rightarrow> Inr (\<lparr>comps = c\<rparr>, arr', c))"

subsection \<open>Measures used in the statements\<close>

text \<open>The length of the longest common prefix of two strings.\<close>

fun lcp_len :: "string \<Rightarrow> string \<Rightarrow> nat" where
  "lcp_len (x # xs) (y # ys) = (if x = y then Suc (lcp_len xs ys) else 0)"
| "lcp_len _ _ = 0"

text \<open>
  \<open>on_result\<close> applies a function to the value of a run that ended without fault;
  \<open>charge c\<close> adds \<open>c\<close> to the counter of such a run.
\<close>

definition charge :: "nat \<Rightarrow> fault + 'a st \<Rightarrow> fault + 'a st" where
  "charge c r = (case r of Inl e \<Rightarrow> Inl e | Inr (arr, k) \<Rightarrow> Inr (arr, c + k))"

definition on_result :: "('b \<Rightarrow> 'c) \<Rightarrow> fault + 'b \<Rightarrow> fault + 'c" where
  "on_result f r = (case r of Inl e \<Rightarrow> Inl e | Inr x \<Rightarrow> Inr (f x))"

subsection \<open>PrefixMergeSort as the specification words it\<close>

text \<open>
  Section 4.2 of the specification, on lists: a range of at most one element is left as
  it is, without a comparison; a longer one is split at the midpoint, both halves are
  sorted, and one pass merges them, comparing the heads with \<open>\<le>\<close> and counting one for
  each such comparison; what is left of one half when the other is exhausted is copied
  without a comparison.  Both functions return the list and the number of comparisons.
\<close>

fun merge_spec :: "('a \<Rightarrow> string) \<Rightarrow> 'a list \<Rightarrow> 'a list \<Rightarrow> 'a list \<times> nat" where
  "merge_spec key [] ys = (ys, 0)"
| "merge_spec key (x # xs) [] = (x # xs, 0)"
| "merge_spec key (x # xs) (y # ys) =
    (if key x \<le> key y then
       (case merge_spec key xs (y # ys) of (zs, n) \<Rightarrow> (x # zs, n + 1))
     else
       (case merge_spec key (x # xs) ys of (zs, n) \<Rightarrow> (y # zs, n + 1)))"

function msort_spec :: "('a \<Rightarrow> string) \<Rightarrow> 'a list \<Rightarrow> 'a list \<times> nat" where
  "msort_spec key xs =
    (if length xs \<le> 1 then (xs, 0)
     else case msort_spec key (take (length xs div 2) xs) of (ls, m) \<Rightarrow>
          case msort_spec key (drop (length xs div 2) xs) of (rs, n) \<Rightarrow>
          case merge_spec key ls rs of (zs, k) \<Rightarrow> (zs, m + n + k))"
  by pat_completeness auto
termination
  by (relation "measure (\<lambda>(key, xs). length xs)") auto

declare msort_spec.simps [simp del]

text \<open>
  \<open>slice arr a b\<close> is the range \<open>[a, b)\<close> of a vector; \<open>merge_phase\<close> is the merge loop of
  \<open>mergeSortLCP\<close> followed by its two draining loops.
\<close>

definition slice :: "'a list \<Rightarrow> nat \<Rightarrow> nat \<Rightarrow> 'a list" where
  "slice arr a b = take (b - a) (drop a arr)"

definition merge_phase :: "('a \<Rightarrow> string) \<Rightarrow> 'a list \<Rightarrow> nat \<Rightarrow> nat \<Rightarrow> nat \<Rightarrow> nat \<Rightarrow> 'a list \<Rightarrow> nat \<Rightarrow> fault + ('a list \<times> nat)" where
  "merge_phase key arr mid right i j temp c =
    (case merge_loop key arr mid right i j temp c of
       Inl e \<Rightarrow> Inl e
     | Inr (i', j', temp0, c') \<Rightarrow>
     case copy_rest arr i' mid temp0 of
       Inl e \<Rightarrow> Inl e
     | Inr temp1 \<Rightarrow>
     case copy_rest arr j' right temp1 of
       Inl e \<Rightarrow> Inl e
     | Inr temp2 \<Rightarrow> Inr (temp2, c'))"

subsection \<open>MsdRadixPure as the specification words it\<close>

text \<open>
  Sections 4.4 and 4.5 of the specification, on lists: a range of at most one element needs
  no work; a longer one is partitioned stably by the rank of the character at depth \<open>d\<close>,
  the strings that have ended (rank \<open>-1\<close>) first, at the cost of one increment for each
  element, and each of the \<open>R\<close> buckets of a real character is sorted in turn at depth
  \<open>d + 1\<close>.  The function returns the list and the number of increments; its first
  argument bounds the depth, as in \<open>msdRadixSortPure\<close>.
\<close>

fun radix_spec :: "nat \<Rightarrow> ('a \<Rightarrow> string) \<Rightarrow> 'a list \<Rightarrow> nat \<Rightarrow> 'a list \<times> nat" where
  "radix_spec 0 key xs d = (xs, 0)"
| "radix_spec (Suc n) key xs d =
    (if length xs \<le> 1 then (xs, 0)
     else (filter (\<lambda>x. charAt (key x) d = - 1) xs
             @ concat (map (\<lambda>r. fst (radix_spec n key
                                  (filter (\<lambda>x. charAt (key x) d = int r) xs) (d + 1))) [0..<R]),
           length xs
             + sum_list (map (\<lambda>r. snd (radix_spec n key
                                  (filter (\<lambda>x. charAt (key x) d = int r) xs) (d + 1))) [0..<R])))"

text \<open>
  The slot of \<open>count\<close> an element is placed by, the elements of a range that share a
  slot, in their order, and the number of elements in the slots before a given one.
  \<open>ranked\<close> says that no string has a character of rank 74 anywhere.
\<close>

definition ranked :: "('a \<Rightarrow> string) \<Rightarrow> 'a list \<Rightarrow> bool" where
  "ranked key xs \<longleftrightarrow> (\<forall>x\<in>set xs. \<forall>d. charAt (key x) d \<noteq> 74)"

definition bkt :: "('a \<Rightarrow> string) \<Rightarrow> nat \<Rightarrow> 'a \<Rightarrow> nat" where
  "bkt key d x = nat (charAt (key x) d + 1)"

definition zone :: "('a \<Rightarrow> string) \<Rightarrow> nat \<Rightarrow> 'a list \<Rightarrow> nat \<Rightarrow> 'a list" where
  "zone key d xs j = filter (\<lambda>x. bkt key d x = j) xs"

definition off :: "('a \<Rightarrow> string) \<Rightarrow> nat \<Rightarrow> 'a list \<Rightarrow> nat \<Rightarrow> nat" where
  "off key d xs j = length (filter (\<lambda>x. bkt key d x < j) xs)"

section \<open>Properties\<close>

subsection \<open>The rank mapping\<close>

lemma find_pos_None: "find_pos xs c = None \<longleftrightarrow> c \<notin> set xs"
  by (induction xs) auto

lemma find_pos_Some: "find_pos xs c = Some p \<Longrightarrow> p < length xs \<and> xs ! p = c"
  by (induction xs arbitrary: p) (auto split: if_splits)

lemma find_pos_nth: "distinct xs \<Longrightarrow> i < length xs \<Longrightarrow> find_pos xs (xs ! i) = Some i"
proof (induction xs arbitrary: i)
  case Nil
  then show ?case by simp
next
  case (Cons x xs)
  show ?case
  proof (cases i)
    case 0
    then show ?thesis by simp
  next
    case (Suc j)
    with Cons.prems have "xs ! j \<noteq> x" "find_pos xs (xs ! j) = Some j"
      using Cons.IH [of j] by auto
    with Suc show ?thesis by auto
  qed
qed

lemma length_alpha: "length alpha = 75"
  by (simp add: alpha_def)

lemma distinct_alpha: "distinct alpha"
  by (simp add: alpha_def)

text \<open>
  C1, as the claim states it, fails: the table holds 75 characters, not 74, and its last
  character \<open>.\<close> has rank 74, outside \<open>0..73\<close>.
\<close>

theorem charToIndex_range_counterexample:
  "length alpha = 75 \<and> CHR ''.'' \<in> set alpha \<and> charToIndex (CHR ''.'') = 74
   \<and> \<not> charToIndex (CHR ''.'') \<le> 73"
  by (simp add: charToIndex_def alpha_def)

text \<open>
  C1 (amended): the alphabet table holds exactly 75 distinct characters; \<open>charToIndex\<close>
  maps each of them to its position in the table, a dense index in the range \<open>0..74\<close>
  (the \<open>i\<close>-th character to \<open>i\<close>), and maps a character absent from the table to \<open>-1\<close>;
  \<open>charAt\<close> gives \<open>-1\<close> for a position past the end of the string and the rank of the
  character otherwise.
\<close>

theorem charToIndex_rank:
  "length alpha = 75 \<and> distinct alpha
   \<and> (c \<in> set alpha \<longrightarrow>
        0 \<le> charToIndex c \<and> charToIndex c \<le> 74 \<and> alpha ! nat (charToIndex c) = c)
   \<and> (i < 75 \<longrightarrow> charToIndex (alpha ! i) = int i)
   \<and> (c \<notin> set alpha \<longrightarrow> charToIndex c = - 1)
   \<and> (length s \<le> d \<longrightarrow> charAt s d = - 1)
   \<and> (d < length s \<longrightarrow> charAt s d = charToIndex (s ! d))"
proof -
  have in_tab: "0 \<le> charToIndex c \<and> charToIndex c \<le> 74 \<and> alpha ! nat (charToIndex c) = c"
    if "c \<in> set alpha"
  proof -
    from that obtain p where p: "find_pos alpha c = Some p"
      using find_pos_None [of alpha c] by (cases "find_pos alpha c") auto
    from find_pos_Some [OF p] have "p < 75" "alpha ! p = c"
      by (simp_all add: length_alpha)
    with p show ?thesis by (simp add: charToIndex_def)
  qed
  have dense: "charToIndex (alpha ! i) = int i" if "i < 75"
    using find_pos_nth [OF distinct_alpha, of i] that
    by (simp add: charToIndex_def length_alpha)
  have absent: "charToIndex c = - 1" if "c \<notin> set alpha"
    using that find_pos_None [of alpha c] by (simp add: charToIndex_def)
  show ?thesis
    using in_tab dense absent length_alpha distinct_alpha by (simp add: charAt_def)
qed

theorem charToIndex_rank_witness:
  "CHR ''.'' \<in> set alpha \<and> charToIndex (CHR ''.'') = 74 \<and> alpha ! 74 = CHR ''.''
   \<and> CHR ''~'' \<notin> set alpha \<and> charToIndex (CHR ''~'') = - 1
   \<and> charAt ''AB'' 2 = - 1 \<and> charAt ''AB'' 1 = 1"
proof -
  have a: "CHR ''.'' \<in> set alpha" and b: "CHR ''~'' \<notin> set alpha"
    by (simp_all add: alpha_def)
  have c: "alpha ! 74 = CHR ''.''"
    by (simp add: alpha_def)
  have d: "charToIndex (CHR ''A'') = 0" "charToIndex (CHR ''B'') = 1"
    by (simp_all add: charToIndex_def alpha_def)
  from charToIndex_rank [of "CHR ''.''" 74 "''AB''" 2] charToIndex_rank [of "CHR ''~''" 0 "''AB''" 1]
  show ?thesis using a b c d by simp
qed

subsection \<open>Evaluating the program on a given vector\<close>

lemma to_int_small: "n < 2 ^ 31 \<Longrightarrow> to_int n = int n"
  by (simp add: to_int_def)

lemmas run_eval = run_def dispatch_def size_t_sub_def to_int_small in_range_def swap_def
  R_def cutoff_def

lemmas tqs_eval = ternaryQuickSort.simps tqs_loop.simps

lemmas tqss_eval = ternaryQuickSortSuffix.simps tqss_loop.simps suffixLess_def
  suffixLess_loop.simps char_lt_def schar_def

lemmas radix_eval = msdRadixSort.simps msdRadixSortPure.simps radix_pass_def count_pass.simps
  prefix_pass.simps place_pass.simps copy_back.simps bucket_loop.simps charAt_def
  charToIndex_def alpha_def

lemmas msort_eval = mergeSortLCP.simps merge_loop.simps copy_rest.simps copy_into_def

subsection \<open>The counting array\<close>

text \<open>
  C2 fails on the code: a string whose character at depth \<open>d\<close> is \<open>.\<close> has rank 74, and
  the counting pass indexes \<open>count\<close>, of size \<open>R + 2 = 76\<close>, at \<open>74 + 2 = 76\<close>.  For
  MsdRadixPure two strings are enough; MsdRadixCutoff needs a range of more than 15.
\<close>

theorem count_out_of_bounds:
  "charAt ''.'' 0 + 2 = 76 \<and> length (replicate (R + 2) (0::nat)) = 76
   \<and> run std_sort 1 (\<lambda>s. s) [] MsdRadixPure comps0 [''.'', ''A''] = Inl OutOfBounds
   \<and> run std_sort 1 (\<lambda>s. s) [] MsdRadix comps0
        [''p'', ''o'', ''n'', ''m'', ''l'', ''k'', ''j'', ''i'', ''h'', ''g'', ''f'', ''e'',
         ''d'', ''c'', ''b'', ''.'']
       = Inl OutOfBounds"
  by (simp add: run_eval radix_eval)

subsection \<open>Sortedness\<close>

text \<open>
  C3 fails on the code: TernaryQuickSort leaves \<open>b, a, a\<close> as \<open>a, b, a\<close>.  The first swap
  puts \<open>a\<close> into slot \<open>lo\<close>, which the pivot reference reads from then on, so the second
  \<open>a\<close> compares equal to the pivot and stays behind \<open>b\<close>.
\<close>

theorem ternaryQuick_unsorted:
  "run std_sort fuel (\<lambda>s. s) [] TernaryQuick comps0 [''b'', ''a'', ''a'']
     = Inr (\<lparr>comps = 2\<rparr>, [''a'', ''b'', ''a''], 2)
   \<and> \<not> sorted [''a'', ''b'', ''a'']"
  by (simp add: run_eval tqs_eval)

subsection \<open>Empty and single-element vectors\<close>

text \<open>
  C8: for every algorithm selector, \<open>run\<close> on an empty or single-element vector returns
  the vector unchanged with a comparison count of zero; for TernaryQuickSort on the empty
  vector the upper index \<^verbatim>\<open>size() - 1\<close> becomes \<open>-1\<close> and the call returns at once.  For
  \<^verbatim>\<open>std::sort\<close> this is the library's part: it does not call the comparator on fewer
  than two elements.
\<close>

theorem run_small:
  assumes "length arr \<le> 1" and "algo = StdQuick \<longrightarrow> std_sort arr = (arr, 0)"
  shows "run std_sort fuel key emp algo comps0 arr = Inr (\<lparr>comps = 0\<rparr>, arr, 0)"
proof -
  from assms(1) consider "arr = []" | x where "arr = [x]"
    by (cases arr) auto
  then show ?thesis
  proof cases
    case 1
    have "to_int (size_t_sub 0 1) = - 1"
      by (simp add: to_int_def size_t_sub_def)
    with 1 assms(2) show ?thesis
      by (cases algo)
        (simp_all add: run_def dispatch_def mergeSortLCP.simps ternaryQuickSort.simps
          msdRadixSort.simps msdRadixSortPure.simps)
  next
    case 2
    have "to_int (size_t_sub 1 1) = 0"
      by (simp add: to_int_def size_t_sub_def)
    with 2 assms(2) show ?thesis
      by (cases algo)
        (simp_all add: run_def dispatch_def mergeSortLCP.simps ternaryQuickSort.simps
          msdRadixSort.simps msdRadixSortPure.simps)
  qed
qed

theorem run_small_witness:
  "run (\<lambda>xs. (sort xs, length xs - 1)) 0 (\<lambda>s. s) [] TernaryQuick 5 []
     = Inr (\<lparr>comps = 0\<rparr>, [], 0)
   \<and> run (\<lambda>xs. (sort xs, length xs - 1)) 0 (\<lambda>s. s) [] StdQuick 5 [''x'']
     = Inr (\<lparr>comps = 0\<rparr>, [''x''], 0)"
  using run_small [of "[]" TernaryQuick "\<lambda>xs. (sort xs, length xs - 1)" 0 "\<lambda>s. s" "[]" 5]
    run_small [of "[''x'']" StdQuick "\<lambda>xs. (sort xs, length xs - 1)" 0 "\<lambda>s. s" "[]" 5]
  by simp

subsection \<open>The fallback below the cutoff\<close>

lemma schar_inj: "schar x = schar y \<Longrightarrow> x = y"
proof -
  assume a: "schar x = schar y"
  have b: "0 \<le> (of_char x :: int)" "(of_char x :: int) < 256" "0 \<le> (of_char y :: int)" "(of_char y :: int) < 256"
    using of_char_mod_256 [of x, where 'a = int] of_char_mod_256 [of y, where 'a = int]
    by (metis pos_mod_sign zero_less_numeral, metis pos_mod_bound zero_less_numeral,
        metis pos_mod_sign zero_less_numeral, metis pos_mod_bound zero_less_numeral)
  from a b have "(of_char x :: int) = of_char y"
    by (simp add: schar_def Let_def split: if_splits)
  then show ?thesis by simp
qed

lemma char_lt_total: "\<not> char_lt x y \<Longrightarrow> \<not> char_lt y x \<Longrightarrow> x = y"
  by (rule schar_inj) (simp add: char_lt_def)

lemma char_lt_irrefl: "\<not> char_lt x x"
  by (simp add: char_lt_def)

lemma char_lt_asym: "char_lt x y \<Longrightarrow> \<not> char_lt y x"
  by (simp add: char_lt_def)

lemma suffixLess_loop_spec:
  "i \<le> length a \<Longrightarrow> i \<le> length b \<Longrightarrow>
   suffixLess_loop a b i c =
     ((drop i a, drop i b) \<in> lexord {(x, y). char_lt x y}, c + lcp_len (drop i a) (drop i b) + 1)"
proof (induction a b i c rule: suffixLess_loop.induct)
  case (1 a b i c)
  show ?case
  proof (cases "i < length a \<and> i < length b")
    case False
    with "1.prems" have "drop i a = [] \<or> drop i b = []" by auto
    then show ?thesis
    proof
      assume e: "drop i a = []"
      with "1.prems" have l: "length a = i" by simp
      have "(([], drop i b) \<in> lexord {(x, y). char_lt x y}) = (drop i b \<noteq> [])"
        by (simp only: lexord_Nil_left neq_Nil_conv)
      then have "(([], drop i b) \<in> lexord {(x, y). char_lt x y}) = (i < length b)"
        by (simp add: not_le)
      with e l show ?thesis
        by (simp add: suffixLess_loop.simps [of a b i c])
    next
      assume e: "drop i b = []"
      with "1.prems" have l: "length b = i" by simp
      with e "1.prems" show ?thesis
        by (simp add: suffixLess_loop.simps [of a b i c])
    qed
  next
    case True
    then have da: "drop i a = a ! i # drop (Suc i) a" and db: "drop i b = b ! i # drop (Suc i) b"
      by (simp_all add: Cons_nth_drop_Suc)
    show ?thesis
    proof (cases "char_lt (a ! i) (b ! i)")
      case lt: True
      then have "a ! i \<noteq> b ! i" using char_lt_irrefl by auto
      with True lt show ?thesis
        by (simp add: suffixLess_loop.simps [of a b i c] da db)
    next
      case nlt: False
      show ?thesis
      proof (cases "char_lt (b ! i) (a ! i)")
        case gt: True
        then have "a ! i \<noteq> b ! i" using char_lt_irrefl by auto
        with True nlt gt show ?thesis
          by (simp add: suffixLess_loop.simps [of a b i c] da db)
      next
        case ngt: False
        with nlt have eq: "a ! i = b ! i" by (rule char_lt_total)
        from True have "Suc i \<le> length a" "Suc i \<le> length b" by simp_all
        with "1.IH" [OF True nlt ngt] True nlt ngt eq show ?thesis
          by (simp add: suffixLess_loop.simps [of a b i c] da db char_lt_irrefl)
      qed
    qed
  qed
qed

lemma suffixLess_loop_cost:
  "snd (suffixLess_loop a b i c) = c + lcp_len (drop i a) (drop i b) + 1"
proof (cases "i \<le> length a \<and> i \<le> length b")
  case True
  then show ?thesis by (simp add: suffixLess_loop_spec)
next
  case False
  then have "drop i a = [] \<or> drop i b = []" by auto
  then have "lcp_len (drop i a) (drop i b) = 0"
    by (cases "drop i a"; cases "drop i b") auto
  with False show ?thesis
    by (auto simp add: suffixLess_loop.simps [of a b i c])
qed

lemma fst_suffixLess_loop: "fst (suffixLess_loop a b i c) = fst (suffixLess_loop a b i c')"
proof (induction a b i c arbitrary: c' rule: suffixLess_loop.induct)
  case (1 a b i c)
  show ?case
  proof (cases "i < length a \<and> i < length b \<and> \<not> char_lt (a ! i) (b ! i) \<and> \<not> char_lt (b ! i) (a ! i)")
    case True
    with "1.IH" [of "c' + 1"] show ?thesis
      by (simp add: suffixLess_loop.simps [of a b i c] suffixLess_loop.simps [of a b i c'])
  next
    case False
    then show ?thesis
      by (auto simp add: suffixLess_loop.simps [of a b i c] suffixLess_loop.simps [of a b i c'])
  qed
qed

lemma suffixLess_eq:
  "suffixLess a b d c = (fst (suffixLess a b d 0), c + lcp_len (drop d a) (drop d b) + 1)"
  using suffixLess_loop_cost [of a b d c] fst_suffixLess_loop [of a b d c 0]
  by (simp add: suffixLess_def prod_eq_iff)

lemma lcp_len_sym: "lcp_len xs ys = lcp_len ys xs"
  by (induction xs ys rule: lcp_len.induct) auto


lemma tqss_loop_step:
  assumes "i \<le> gt" "in_range arr i" "in_range arr lt" "in_range arr gt"
  shows "tqss_loop key (arr, c) lo lt i gt d =
          (let x = key (arr ! nat i); p = key (arr ! nat lo);
               n = lcp_len (drop d x) (drop d p) + 1
           in if fst (suffixLess x p d 0) then
                tqss_loop key (swap arr lt i, c + 1 + n) lo (lt + 1) (i + 1) gt d
              else if fst (suffixLess p x d 0) then
                tqss_loop key (swap arr i gt, c + 1 + n + n) lo lt i (gt - 1) d
              else tqss_loop key (arr, c + 1 + n + n) lo lt (i + 1) gt d)"
proof -
  let ?x = "key (arr ! nat i)" and ?p = "key (arr ! nat lo)"
  let ?n = "lcp_len (drop d ?x) (drop d ?p) + 1"
  define b1 where "b1 = fst (suffixLess ?x ?p d 0)"
  define b2 where "b2 = fst (suffixLess ?p ?x d 0)"
  have s1: "suffixLess ?x ?p d c' = (b1, c' + ?n)" for c'
    unfolding b1_def by (subst suffixLess_eq) simp
  have s2: "suffixLess ?p ?x d c' = (b2, c' + ?n)" for c'
    unfolding b2_def by (subst suffixLess_eq) (simp add: lcp_len_sym [of "drop d ?p"])
  show ?thesis
    using assms
    by (cases b1; cases b2) (simp_all add: tqss_loop.simps [of key arr c lo lt i gt d] s1 s2 Let_def)
qed

lemma suffixLess_short:
  "\<not> (d \<le> length a \<and> d \<le> length b) \<Longrightarrow> fst (suffixLess a b d c) = (length a < length b)"
  by (auto simp add: suffixLess_def suffixLess_loop.simps [of a b d c])

lemma tqss_loop_exit: "gt < i \<Longrightarrow> tqss_loop key st lo lt i gt d = Inr (st, lt, gt)"
  by (cases st) (simp add: tqss_loop.simps)

lemma count_list_update:
  "i < length xs \<Longrightarrow>
   count_list (xs[i := y]) z + (if xs ! i = z then 1 else 0)
     = count_list xs z + (if y = z then 1 else 0)"
proof (induction xs arbitrary: i)
  case Nil
  then show ?case by simp
next
  case (Cons x xs)
  show ?case
  proof (cases i)
    case 0
    then show ?thesis by simp
  next
    case (Suc j)
    with Cons.prems have "j < length xs" by simp
    from Cons.IH [OF this] Suc show ?thesis by (simp split: if_splits)
  qed
qed

lemma length_swap: "length (swap arr a b) = length arr"
  by (simp add: swap_def)

lemma nth_swap_other: "p \<noteq> nat a \<Longrightarrow> p \<noteq> nat b \<Longrightarrow> swap arr a b ! p = arr ! p"
  by (simp add: swap_def)

lemma count_list_swap:
  assumes "in_range arr a" "in_range arr b"
  shows "count_list (swap arr a b) z = count_list arr z"
proof -
  from assms have a: "nat a < length arr" and b: "nat b < length arr"
    by (auto simp add: in_range_def)
  define xs where "xs = arr[nat a := arr ! nat b]"
  have b': "nat b < length xs" using b by (simp add: xs_def)
  have nb: "xs ! nat b = arr ! nat b"
    using a b by (cases "nat a = nat b") (simp_all add: xs_def)
  from count_list_update [OF b', of "arr ! nat a" z] nb
  have 1: "count_list (xs[nat b := arr ! nat a]) z + (if arr ! nat b = z then 1 else 0)
      = count_list xs z + (if arr ! nat a = z then 1 else 0)"
    by simp
  from count_list_update [OF a, of "arr ! nat b" z]
  have 2: "count_list xs z + (if arr ! nat a = z then 1 else 0)
      = count_list arr z + (if arr ! nat b = z then 1 else 0)"
    by (simp add: xs_def)
  from 1 2 have "count_list (xs[nat b := arr ! nat a]) z = count_list arr z"
    by simp
  then show ?thesis by (simp add: swap_def xs_def)
qed

lemma tqss_loop_ok:
  "0 \<le> lt \<Longrightarrow> lt < i \<Longrightarrow> i \<le> gt + 1 \<Longrightarrow> gt < int (length arr) \<Longrightarrow> nat (gt + 1 - i) = n \<Longrightarrow>
   \<exists>arr' c' lt' gt'. tqss_loop key (arr, c) lo lt i gt d = Inr ((arr', c'), lt', gt')
      \<and> length arr' = length arr
      \<and> (\<forall>x. count_list arr' x = count_list arr x)
      \<and> (\<forall>p. p < nat lt \<or> nat gt < p \<longrightarrow> arr' ! p = arr ! p)
      \<and> c + 2 * n \<le> c'"
proof (induction n arbitrary: arr c lt i gt)
  case 0
  then have "gt < i" by simp
  then show ?case by (simp add: tqss_loop_exit)
next
  case (Suc n)
  from Suc.prems have i: "i \<le> gt" by simp
  from Suc.prems i have r: "in_range arr i" "in_range arr lt" "in_range arr gt"
    by (simp_all add: in_range_def)
  define m where "m = lcp_len (drop d (key (arr ! nat i))) (drop d (key (arr ! nat lo))) + 1"
  define b1 where "b1 = fst (suffixLess (key (arr ! nat i)) (key (arr ! nat lo)) d 0)"
  define b2 where "b2 = fst (suffixLess (key (arr ! nat lo)) (key (arr ! nat i)) d 0)"
  have m: "1 \<le> m" by (simp add: m_def)
  have e: "tqss_loop key (arr, c) lo lt i gt d =
      (if b1 then tqss_loop key (swap arr lt i, c + 1 + m) lo (lt + 1) (i + 1) gt d
       else if b2 then tqss_loop key (swap arr i gt, c + 1 + m + m) lo lt i (gt - 1) d
       else tqss_loop key (arr, c + 1 + m + m) lo lt (i + 1) gt d)"
    unfolding m_def b1_def b2_def
    by (simp only: tqss_loop_step [OF i r] Let_def)
  show ?case
  proof (cases b1)
    case True
    from Suc.prems have p: "0 \<le> lt + 1" "lt + 1 < i + 1" "i + 1 \<le> gt + 1"
      "gt < int (length (swap arr lt i))" "nat (gt + 1 - (i + 1)) = n"
      by (simp_all add: length_swap)
    from Suc.IH [OF p, of "c + 1 + m"] obtain arr' c' lt' gt' where
      h: "tqss_loop key (swap arr lt i, c + 1 + m) lo (lt + 1) (i + 1) gt d = Inr ((arr', c'), lt', gt')"
         "length arr' = length (swap arr lt i)"
         "\<forall>x. count_list arr' x = count_list (swap arr lt i) x"
         "\<forall>p. p < nat (lt + 1) \<or> nat gt < p \<longrightarrow> arr' ! p = swap arr lt i ! p"
         "c + 1 + m + 2 * n \<le> c'"
      by blast
    have fr: "arr' ! p = arr ! p" if "p < nat lt \<or> nat gt < p" for p
    proof -
      from that Suc.prems i have n: "p \<noteq> nat lt" "p \<noteq> nat i" and "p < nat (lt + 1) \<or> nat gt < p"
        by auto
      from h(4) [rule_format, OF this(3)] n show ?thesis by (simp add: nth_swap_other)
    qed
    from h(5) m have "c + 2 * Suc n \<le> c'" by simp
    with e True h(1,2,3) fr r show ?thesis
      by (simp add: length_swap count_list_swap)
  next
    case nb1: False
    show ?thesis
    proof (cases b2)
      case True
      from Suc.prems i have p: "0 \<le> lt" "lt < i" "i \<le> gt - 1 + 1"
        "gt - 1 < int (length (swap arr i gt))" "nat (gt - 1 + 1 - i) = n"
        by (simp_all add: length_swap)
      from Suc.IH [OF p, of "c + 1 + m + m"] obtain arr' c' lt' gt' where
        h: "tqss_loop key (swap arr i gt, c + 1 + m + m) lo lt i (gt - 1) d = Inr ((arr', c'), lt', gt')"
           "length arr' = length (swap arr i gt)"
           "\<forall>x. count_list arr' x = count_list (swap arr i gt) x"
           "\<forall>p. p < nat lt \<or> nat (gt - 1) < p \<longrightarrow> arr' ! p = swap arr i gt ! p"
           "c + 1 + m + m + 2 * n \<le> c'"
        by blast
      have fr: "arr' ! p = arr ! p" if "p < nat lt \<or> nat gt < p" for p
      proof -
          from that Suc.prems i have n: "p \<noteq> nat i" "p \<noteq> nat gt" and "p < nat lt \<or> nat (gt - 1) < p"
          by auto
        from h(4) [rule_format, OF this(3)] n show ?thesis by (simp add: nth_swap_other)
      qed
      from h(5) m have "c + 2 * Suc n \<le> c'" by simp
      with e nb1 True h(1,2,3) fr r show ?thesis
        by (simp add: length_swap count_list_swap)
    next
      case nb2: False
      from Suc.prems i have p: "0 \<le> lt" "lt < i + 1" "i + 1 \<le> gt + 1"
        "gt < int (length arr)" "nat (gt + 1 - (i + 1)) = n"
        by simp_all
      from Suc.IH [OF p, of "c + 1 + m + m"] obtain arr' c' lt' gt' where
        h: "tqss_loop key (arr, c + 1 + m + m) lo lt (i + 1) gt d = Inr ((arr', c'), lt', gt')"
           "length arr' = length arr"
           "\<forall>x. count_list arr' x = count_list arr x"
           "\<forall>p. p < nat lt \<or> nat gt < p \<longrightarrow> arr' ! p = arr ! p"
           "c + 1 + m + m + 2 * n \<le> c'"
        by blast
      from h(5) m have "c + 2 * Suc n \<le> c'" by simp
      with e nb1 nb2 h(1,2,3,4) show ?thesis
        by simp
    qed
  qed
qed

lemma ternaryQuickSortSuffix_ok:
  "0 \<le> lo \<Longrightarrow> hi < int (length arr) \<Longrightarrow>
   \<exists>arr' c'. ternaryQuickSortSuffix key (arr, c) lo hi d = Inr (arr', c')
      \<and> length arr' = length arr
      \<and> (\<forall>x. count_list arr' x = count_list arr x)
      \<and> (\<forall>p. p < nat lo \<or> nat hi < p \<longrightarrow> arr' ! p = arr ! p)
      \<and> c + 2 * nat (hi - lo) \<le> c'"
proof (induction "nat (hi - lo)" arbitrary: arr c lo hi rule: less_induct)
  case less
  show ?case
  proof (cases "hi \<le> lo")
    case True
    then show ?thesis by (simp add: ternaryQuickSortSuffix.simps)
  next
    case False
    with less.prems have r: "in_range arr lo" by (simp add: in_range_def)
    from less.prems False
    have p: "0 \<le> lo" "lo < lo + 1" "lo + 1 \<le> hi + 1" "hi < int (length arr)"
      "nat (hi + 1 - (lo + 1)) = nat (hi - lo)"
      by simp_all
    from tqss_loop_ok [OF p, of key c lo d] obtain arr1 c1 lt gt where
      l: "tqss_loop key (arr, c) lo lo (lo + 1) hi d = Inr ((arr1, c1), lt, gt)"
         "length arr1 = length arr"
         "\<forall>x. count_list arr1 x = count_list arr x"
         "\<forall>p. p < nat lo \<or> nat hi < p \<longrightarrow> arr1 ! p = arr ! p"
         "c + 2 * nat (hi - lo) \<le> c1"
      by blast
    from tqss_loop_bounds [OF l(1)] False
    have b: "lo \<le> lt" "lt \<le> gt" "gt \<le> hi" by simp_all
    from b False less.prems l(2)
    have q1: "nat (lt - 1 - lo) < nat (hi - lo)" "0 \<le> lo" "lt - 1 < int (length arr1)"
      by simp_all
    from less.hyps [OF q1, of c1] obtain arr2 c2 where
      s: "ternaryQuickSortSuffix key (arr1, c1) lo (lt - 1) d = Inr (arr2, c2)"
         "length arr2 = length arr1"
         "\<forall>x. count_list arr2 x = count_list arr1 x"
         "\<forall>p. p < nat lo \<or> nat (lt - 1) < p \<longrightarrow> arr2 ! p = arr1 ! p"
         "c1 + 2 * nat (lt - 1 - lo) \<le> c2"
      by blast
    from b False less.prems l(2) s(2)
    have q2: "nat (hi - (gt + 1)) < nat (hi - lo)" "0 \<le> gt + 1" "hi < int (length arr2)"
      by simp_all
    from less.hyps [OF q2, of c2] obtain arr3 c3 where
      t: "ternaryQuickSortSuffix key (arr2, c2) (gt + 1) hi d = Inr (arr3, c3)"
         "length arr3 = length arr2"
         "\<forall>x. count_list arr3 x = count_list arr2 x"
         "\<forall>p. p < nat (gt + 1) \<or> nat hi < p \<longrightarrow> arr3 ! p = arr2 ! p"
         "c2 + 2 * nat (hi - (gt + 1)) \<le> c3"
      by blast
    have e: "ternaryQuickSortSuffix key (arr, c) lo hi d = Inr (arr3, c3)"
      using False r l(1) s(1) t(1)
      by (simp add: ternaryQuickSortSuffix.simps [of key arr c lo hi d])
    have fr: "arr3 ! p = arr ! p" if "p < nat lo \<or> nat hi < p" for p
    proof -
      from that b less.prems
      have u: "p < nat lo \<or> nat (lt - 1) < p" and v: "p < nat (gt + 1) \<or> nat hi < p"
        by auto
      from l(4) [rule_format, OF that] s(4) [rule_format, OF u] t(4) [rule_format, OF v]
      show ?thesis by simp
    qed
    from l(5) s(5) t(5) have "c + 2 * nat (hi - lo) \<le> c3" by simp
    with e l(2,3) s(2,3) t(2,3) fr show ?thesis
      by simp
  qed
qed


text \<open>
  C6, as the claim states it, fails: sorting \<open>b, a\<close> scans one element, and
  TernaryQuickSort charges one comparison for it, but the fallback of MsdRadixCutoff
  charges two, one in the loop and one in \<^verbatim>\<open>suffixLess\<close>.  (\<open>std_sort\<close> plays no part
  for these selectors.)
\<close>

theorem cutoff_charges_counterexample:
  "run (\<lambda>xs. (xs, 0)) 0 (\<lambda>s. s) [] MsdRadix 0 [''b'', ''a'']
     = Inr (\<lparr>comps = 2\<rparr>, [''a'', ''b''], 2)
   \<and> run (\<lambda>xs. (xs, 0)) 0 (\<lambda>s. s) [] TernaryQuick 0 [''b'', ''a'']
     = Inr (\<lparr>comps = 1\<rparr>, [''a'', ''b''], 1)"
  by (simp add: run_eval tqs_eval tqss_eval msdRadixSort.simps)

text \<open>
  C6 (amended): in MsdRadixCutoff every range of size 2 to \<open>cutoff = 15\<close> is handed to
  \<open>ternaryQuickSortSuffix\<close> at offset \<open>d\<close>, with its bounds \<open>left\<close> and \<open>right - 1\<close>
  converted to \<^verbatim>\<open>int\<close>.  On an empty or one-element range that function returns at once;
  otherwise it runs the partition loop of TernaryQuickSort on the range, from its first
  slot, with \<^verbatim>\<open>suffixLess\<close> as the comparison, and then treats the part below \<open>lt\<close> and
  the part above \<open>gt\<close> in the same way.  On strings that reach offset \<open>d\<close>, \<^verbatim>\<open>suffixLess\<close>
  is the lexicographic order of the suffixes from \<open>d\<close> on (by \<^verbatim>\<open>char\<close> value, an ended
  string first); when one of the two strings is shorter than \<open>d\<close> it compares their
  lengths.  Each call of it charges the length of the common prefix of the two suffixes
  plus one.  For each scanned element the loop charges one increment and makes one call
  of \<^verbatim>\<open>suffixLess\<close> when the element is less than the pivot, two otherwise, so that a
  scanned element costs two increments or more, never exactly one.  On a range
  \<open>lo .. hi\<close> that lies inside the vector the fallback returns, every element occurs in
  the vector as often as before, the elements outside the range stay where they are, and
  at least \<open>2 * (hi - lo)\<close> increments are charged.  In particular \<^verbatim>\<open>run\<close> with MsdRadixCutoff
  on a vector of \<open>n\<close> strings, \<open>2 \<le> n \<le> 15\<close>, returns a vector with the same elements and
  reports at least \<open>2 * (n - 1)\<close> comparisons.
\<close>

theorem cutoff_fallback:
  "(left + 2 \<le> right \<and> right - left \<le> cutoff \<longrightarrow>
      msdRadixSort fuel key emp st left right d
        = ternaryQuickSortSuffix key st (to_int left) (to_int (right - 1)) d)
   \<and> (hi \<le> lo \<longrightarrow> ternaryQuickSortSuffix key st lo hi d = Inr st)
   \<and> (lo < hi \<and> in_range arr lo \<longrightarrow>
        ternaryQuickSortSuffix key (arr, c) lo hi d =
          (case tqss_loop key (arr, c) lo lo (lo + 1) hi d of
             Inl e \<Rightarrow> Inl e
           | Inr (st1, lt1, gt1) \<Rightarrow>
               (case ternaryQuickSortSuffix key st1 lo (lt1 - 1) d of
                  Inl e \<Rightarrow> Inl e
                | Inr st2 \<Rightarrow> ternaryQuickSortSuffix key st2 (gt1 + 1) hi d)))
   \<and> (gt < i \<longrightarrow> tqss_loop key st lo lt i gt d = Inr (st, lt, gt))
   \<and> (i \<le> gt \<and> in_range arr i \<and> in_range arr lt \<and> in_range arr gt \<longrightarrow>
        tqss_loop key (arr, c) lo lt i gt d =
          (let x = key (arr ! nat i); p = key (arr ! nat lo);
               n = lcp_len (drop d x) (drop d p) + 1
           in if fst (suffixLess x p d 0) then
                tqss_loop key (swap arr lt i, c + 1 + n) lo (lt + 1) (i + 1) gt d
              else if fst (suffixLess p x d 0) then
                tqss_loop key (swap arr i gt, c + 1 + n + n) lo lt i (gt - 1) d
              else tqss_loop key (arr, c + 1 + n + n) lo lt (i + 1) gt d))
   \<and> fst (suffixLess a b d c) =
        (if d \<le> length a \<and> d \<le> length b
         then (drop d a, drop d b) \<in> lexord {(x, y). char_lt x y}
         else length a < length b)
   \<and> snd (suffixLess a b d c) = c + lcp_len (drop d a) (drop d b) + 1
   \<and> (0 \<le> lo \<and> hi < int (length arr) \<longrightarrow>
        (\<exists>arr' c'. ternaryQuickSortSuffix key (arr, c) lo hi d = Inr (arr', c')
           \<and> length arr' = length arr
           \<and> (\<forall>x. count_list arr' x = count_list arr x)
           \<and> (\<forall>p. p < nat lo \<or> nat hi < p \<longrightarrow> arr' ! p = arr ! p)
           \<and> c + 2 * nat (hi - lo) \<le> c'))
   \<and> (2 \<le> length arr \<and> length arr \<le> cutoff \<longrightarrow>
        (\<exists>arr' c'. run std_sort fuel key emp MsdRadix comps0 arr = Inr (\<lparr>comps = c'\<rparr>, arr', c')
           \<and> length arr' = length arr
           \<and> (\<forall>x. count_list arr' x = count_list arr x)
           \<and> 2 * (length arr - 1) \<le> c'))"
proof -
  have fallback: "msdRadixSort fuel key emp st left right d
        = ternaryQuickSortSuffix key st (to_int left) (to_int (right - 1)) d"
    if "left + 2 \<le> right \<and> right - left \<le> cutoff"
    using that by (simp add: msdRadixSort.simps)
  have base: "ternaryQuickSortSuffix key st lo hi d = Inr st" if "hi \<le> lo"
    using that by (cases st) (simp add: ternaryQuickSortSuffix.simps)
  have rec: "ternaryQuickSortSuffix key (arr, c) lo hi d =
          (case tqss_loop key (arr, c) lo lo (lo + 1) hi d of
             Inl e \<Rightarrow> Inl e
           | Inr (st1, lt1, gt1) \<Rightarrow>
               (case ternaryQuickSortSuffix key st1 lo (lt1 - 1) d of
                  Inl e \<Rightarrow> Inl e
                | Inr st2 \<Rightarrow> ternaryQuickSortSuffix key st2 (gt1 + 1) hi d))"
    if "lo < hi \<and> in_range arr lo"
    using that by (simp add: ternaryQuickSortSuffix.simps [of key arr c lo hi d])
  have exit: "tqss_loop key st lo lt i gt d = Inr (st, lt, gt)" if "gt < i"
    using that by (rule tqss_loop_exit)
  have step: "tqss_loop key (arr, c) lo lt i gt d =
          (let x = key (arr ! nat i); p = key (arr ! nat lo);
               n = lcp_len (drop d x) (drop d p) + 1
           in if fst (suffixLess x p d 0) then
                tqss_loop key (swap arr lt i, c + 1 + n) lo (lt + 1) (i + 1) gt d
              else if fst (suffixLess p x d 0) then
                tqss_loop key (swap arr i gt, c + 1 + n + n) lo lt i (gt - 1) d
              else tqss_loop key (arr, c + 1 + n + n) lo lt (i + 1) gt d)"
    if "i \<le> gt \<and> in_range arr i \<and> in_range arr lt \<and> in_range arr gt"
    using that by (intro tqss_loop_step) simp_all
  have order: "fst (suffixLess a b d c) =
        (if d \<le> length a \<and> d \<le> length b
         then (drop d a, drop d b) \<in> lexord {(x, y). char_lt x y}
         else length a < length b)"
  proof (cases "d \<le> length a \<and> d \<le> length b")
    case True
    then show ?thesis by (simp add: suffixLess_def suffixLess_loop_spec)
  next
    case False
    have "fst (suffixLess a b d c) = (length a < length b)"
      by (rule suffixLess_short [OF False])
    also have "\<dots> = (if d \<le> length a \<and> d \<le> length b
         then (drop d a, drop d b) \<in> lexord {(x, y). char_lt x y}
         else length a < length b)"
      by (simp only: False if_False)
    finally show ?thesis .
  qed
  have cost: "snd (suffixLess a b d c) = c + lcp_len (drop d a) (drop d b) + 1"
    by (simp add: suffixLess_def suffixLess_loop_cost)
  have total: "\<exists>arr' c'. ternaryQuickSortSuffix key (arr, c) lo hi d = Inr (arr', c')
           \<and> length arr' = length arr
           \<and> (\<forall>x. count_list arr' x = count_list arr x)
           \<and> (\<forall>p. p < nat lo \<or> nat hi < p \<longrightarrow> arr' ! p = arr ! p)
           \<and> c + 2 * nat (hi - lo) \<le> c'"
    if "0 \<le> lo \<and> hi < int (length arr)"
    using that by (intro ternaryQuickSortSuffix_ok) simp_all
  have whole: "\<exists>arr' c'. run std_sort fuel key emp MsdRadix comps0 arr = Inr (\<lparr>comps = c'\<rparr>, arr', c')
           \<and> length arr' = length arr
           \<and> (\<forall>x. count_list arr' x = count_list arr x)
           \<and> 2 * (length arr - 1) \<le> c'"
    if "2 \<le> length arr \<and> length arr \<le> cutoff"
  proof -
    from that have len: "2 \<le> length arr" "length arr \<le> 15"
      by (simp_all add: cutoff_def)
    define k where "k = length arr - 1"
    from len have "k < 15" unfolding k_def by arith
    also have "(15::nat) < 2 ^ 31" by simp
    finally have k: "k < 2 ^ 31" .
    have t0: "to_int 0 = 0"
      using to_int_small [of 0] by simp
    from len have "int k = int (length arr) - 1"
      unfolding k_def by (simp add: of_nat_diff)
    with to_int_small [OF k] have tk: "to_int k = int (length arr) - 1"
      by simp
    from that have "msdRadixSort fuel key emp (arr, 0) 0 (length arr) 0
        = ternaryQuickSortSuffix key (arr, 0) (to_int 0) (to_int k) 0"
      unfolding k_def by (simp add: msdRadixSort.simps)
    then have m: "msdRadixSort fuel key emp (arr, 0) 0 (length arr) 0
        = ternaryQuickSortSuffix key (arr, 0) 0 (int (length arr) - 1) 0"
      by (simp only: t0 tk)
    have "(0::int) \<le> 0" "int (length arr) - 1 < int (length arr)" by simp_all
    from ternaryQuickSortSuffix_ok [OF this, of key 0 0] obtain arr' c' where
      t: "ternaryQuickSortSuffix key (arr, 0) 0 (int (length arr) - 1) 0 = Inr (arr', c')"
         "length arr' = length arr"
         "\<forall>x. count_list arr' x = count_list arr x"
         "0 + 2 * nat (int (length arr) - 1 - 0) \<le> c'"
      by blast
    from that have "nat (int (length arr) - 1 - 0) = length arr - 1" by simp
    with t(4) have c: "2 * (length arr - 1) \<le> c'" by simp
    from m t(1) have "run std_sort fuel key emp MsdRadix comps0 arr = Inr (\<lparr>comps = c'\<rparr>, arr', c')"
      by (simp add: run_def dispatch_def)
    with t(2,3) c show ?thesis by blast
  qed
  show ?thesis
    by (intro conjI impI fallback base rec exit step order cost total whole) simp_all
qed

theorem cutoff_fallback_witness:
  "msdRadixSort 0 (\<lambda>s. s) [] ([''b'', ''a'', ''z''], 0) 0 2 0 = Inr ([''a'', ''b'', ''z''], 2)
   \<and> fst (suffixLess ''ab'' ''ac'' 0 0) \<and> snd (suffixLess ''ab'' ''ac'' 0 0) = 2
   \<and> (\<exists>arr' c'. ternaryQuickSortSuffix (\<lambda>s. s) ([''c'', ''b'', ''a'', ''z''], 0) 0 2 0 = Inr (arr', c')
         \<and> length arr' = 4 \<and> count_list arr' ''a'' = 1 \<and> arr' ! 3 = ''z'' \<and> 4 \<le> c')
   \<and> (\<exists>arr' c'. run (\<lambda>xs. (xs, 0)) 0 (\<lambda>s. s) [] MsdRadix 0 [''c'', ''b'', ''a'']
           = Inr (\<lparr>comps = c'\<rparr>, arr', c')
         \<and> length arr' = 3 \<and> count_list arr' ''c'' = 1 \<and> 4 \<le> c')"
proof -
  let ?k = "\<lambda>s::string. s"
  let ?ba = "[''b'', ''a'', ''z'']" and ?ab = "[''a'', ''b'', ''z'']"
  have h1: "(0::nat) + 2 \<le> 2 \<and> (2::nat) - 0 \<le> cutoff"
    by (simp add: cutoff_def)
  have h2: "(0::int) < 1 \<and> in_range ?ba 0"
    by (simp add: in_range_def)
  have h3: "(1::int) \<le> 1 \<and> in_range ?ba 1 \<and> in_range ?ba 0 \<and> in_range ?ba 1"
    by (simp add: in_range_def)
  have h4: "(0::nat) \<le> length ''ab'' \<and> (0::nat) \<le> length ''ac''"
    by simp
  have h5: "(0::int) \<le> 0 \<and> (2::int) < int (length [''c'', ''b'', ''a'', ''z''])"
    by simp
  have lt: "(''ab'', ''ac'') \<in> lexord {(x, y). char_lt x y}"
    by (simp add: char_lt_def schar_def)
  have f: "fst (suffixLess ''a'' ''b'' 0 0)"
    by (simp add: suffixLess_def suffixLess_loop.simps char_lt_def schar_def)
  have a: "msdRadixSort 0 ?k [] (?ba, 0) 0 2 0
      = ternaryQuickSortSuffix ?k (?ba, 0) (to_int 0) (to_int (2 - 1)) 0"
    using cutoff_fallback [where left = 0 and right = 2 and fuel = 0 and key = ?k and emp = "[]"
        and st = "(?ba, 0)" and d = 0, THEN conjunct1] h1
    by (rule mp)
  have r: "ternaryQuickSortSuffix ?k (?ba, 0) 0 1 0 =
          (case tqss_loop ?k (?ba, 0) 0 0 (0 + 1) 1 0 of
             Inl e \<Rightarrow> Inl e
           | Inr (st1, lt1, gt1) \<Rightarrow>
               (case ternaryQuickSortSuffix ?k st1 0 (lt1 - 1) 0 of
                  Inl e \<Rightarrow> Inl e
                | Inr st2 \<Rightarrow> ternaryQuickSortSuffix ?k st2 (gt1 + 1) 1 0))"
    using cutoff_fallback [where key = ?k and arr = ?ba and c = 0 and lo = 0 and hi = 1 and d = 0,
        THEN conjunct2, THEN conjunct2, THEN conjunct1] h2
    by (rule mp)
  have "tqss_loop ?k (?ba, 0) 0 0 1 1 0 =
          (let x = ?ba ! nat 1; p = ?ba ! nat 0;
               n = lcp_len (drop 0 x) (drop 0 p) + 1
           in if fst (suffixLess x p 0 0) then
                tqss_loop ?k (swap ?ba 0 1, 0 + 1 + n) 0 (0 + 1) (1 + 1) 1 0
              else if fst (suffixLess p x 0 0) then
                tqss_loop ?k (swap ?ba 1 1, 0 + 1 + n + n) 0 0 1 (1 - 1) 0
              else tqss_loop ?k (?ba, 0 + 1 + n + n) 0 0 (1 + 1) 1 0)"
    using cutoff_fallback [where key = ?k and arr = ?ba and c = 0 and lo = 0 and lt = 0
        and i = 1 and gt = 1 and d = 0,
        THEN conjunct2, THEN conjunct2, THEN conjunct2, THEN conjunct2, THEN conjunct1] h3
    by (rule mp)
  also have "\<dots> = tqss_loop ?k (swap ?ba 0 1, 0 + 1 + 1) 0 (0 + 1) (1 + 1) 1 0"
    using f by (simp add: Let_def)
  also have "\<dots> = tqss_loop ?k (?ab, 2) 0 1 2 1 0"
    by (simp add: swap_def numeral_2_eq_2)
  also have "\<dots> = Inr ((?ab, 2), 1, 1)"
    using cutoff_fallback [where key = ?k and st = "(?ab, 2)" and lo = 0 and lt = 1
        and i = 2 and gt = 1 and d = 0,
        THEN conjunct2, THEN conjunct2, THEN conjunct2, THEN conjunct1]
    by simp
  finally have l: "tqss_loop ?k (?ba, 0) 0 0 1 1 0 = Inr ((?ab, 2), 1, 1)" .
  have b1: "ternaryQuickSortSuffix ?k (?ab, 2) 0 0 0 = Inr (?ab, 2)"
    using cutoff_fallback [where key = ?k and st = "(?ab, 2)" and lo = 0 and hi = 0 and d = 0,
        THEN conjunct2, THEN conjunct1]
    by simp
  have b2: "ternaryQuickSortSuffix ?k (?ab, 2) 2 1 0 = Inr (?ab, 2)"
    using cutoff_fallback [where key = ?k and st = "(?ab, 2)" and lo = 2 and hi = 1 and d = 0,
        THEN conjunct2, THEN conjunct1]
    by simp
  from a r l b1 b2 have p1: "msdRadixSort 0 ?k [] (?ba, 0) 0 2 0 = Inr (?ab, 2)"
    by (simp add: to_int_small)
  have "fst (suffixLess ''ab'' ''ac'' 0 0)
      = (if 0 \<le> length ''ab'' \<and> 0 \<le> length ''ac''
         then (drop 0 ''ab'', drop 0 ''ac'') \<in> lexord {(x, y). char_lt x y}
         else length ''ab'' < length ''ac'')"
    using cutoff_fallback [where a = "''ab''" and b = "''ac''" and d = 0 and c = 0,
        THEN conjunct2, THEN conjunct2, THEN conjunct2, THEN conjunct2, THEN conjunct2,
        THEN conjunct1] .
  with lt h4 have p2: "fst (suffixLess ''ab'' ''ac'' 0 0)"
    by simp
  have "snd (suffixLess ''ab'' ''ac'' 0 0) = 0 + lcp_len (drop 0 ''ab'') (drop 0 ''ac'') + 1"
    using cutoff_fallback [where a = "''ab''" and b = "''ac''" and d = 0 and c = 0,
        THEN conjunct2, THEN conjunct2, THEN conjunct2, THEN conjunct2, THEN conjunct2,
        THEN conjunct2, THEN conjunct1] .
  then have p3: "snd (suffixLess ''ab'' ''ac'' 0 0) = 2"
    by simp
  let ?cba = "[''c'', ''b'', ''a'', ''z'']"
  have "\<exists>arr' c'. ternaryQuickSortSuffix ?k (?cba, 0) 0 2 0 = Inr (arr', c')
           \<and> length arr' = length ?cba
           \<and> (\<forall>x. count_list arr' x = count_list ?cba x)
           \<and> (\<forall>p. p < nat 0 \<or> nat 2 < p \<longrightarrow> arr' ! p = ?cba ! p)
           \<and> 0 + 2 * nat (2 - 0) \<le> c'"
    using cutoff_fallback [where key = ?k and arr = ?cba and c = 0 and lo = 0 and hi = 2 and d = 0,
        THEN conjunct2, THEN conjunct2, THEN conjunct2, THEN conjunct2, THEN conjunct2,
        THEN conjunct2, THEN conjunct2, THEN conjunct1] h5
    by (rule mp)
  then obtain arr' c' where
    t: "ternaryQuickSortSuffix ?k (?cba, 0) 0 2 0 = Inr (arr', c')"
       "length arr' = length ?cba"
       "\<forall>x. count_list arr' x = count_list ?cba x"
       "\<forall>p. p < nat 0 \<or> nat 2 < p \<longrightarrow> arr' ! p = ?cba ! p"
       "0 + 2 * nat (2 - 0) \<le> c'"
    by blast
  from t(2) have t2: "length arr' = 4" by simp
  from t(3) [rule_format, of "''a''"] have t3: "count_list arr' ''a'' = 1" by simp
  from t(4) [rule_format, of 3] have t4: "arr' ! 3 = ''z''" by simp
  from t(5) have t5: "4 \<le> c'" by simp
  from t(1) t2 t3 t4 t5
  have p4: "\<exists>arr' c'. ternaryQuickSortSuffix ?k (?cba, 0) 0 2 0 = Inr (arr', c')
         \<and> length arr' = 4 \<and> count_list arr' ''a'' = 1 \<and> arr' ! 3 = ''z'' \<and> 4 \<le> c'"
    by blast
  let ?v = "[''c'', ''b'', ''a'']"
  have h6: "2 \<le> length ?v \<and> length ?v \<le> cutoff"
    by (simp add: cutoff_def)
  have "\<exists>arr' c'. run (\<lambda>xs. (xs, 0)) 0 ?k [] MsdRadix 0 ?v = Inr (\<lparr>comps = c'\<rparr>, arr', c')
           \<and> length arr' = length ?v
           \<and> (\<forall>x. count_list arr' x = count_list ?v x)
           \<and> 2 * (length ?v - 1) \<le> c'"
    using cutoff_fallback [where key = ?k and arr = ?v and std_sort = "\<lambda>xs. (xs, 0)"
        and fuel = 0 and emp = "[]",
        THEN conjunct2, THEN conjunct2, THEN conjunct2, THEN conjunct2, THEN conjunct2,
        THEN conjunct2, THEN conjunct2, THEN conjunct2] h6
    by (rule mp)
  then obtain arr' c' where
    u: "run (\<lambda>xs. (xs, 0)) 0 ?k [] MsdRadix 0 ?v = Inr (\<lparr>comps = c'\<rparr>, arr', c')"
       "length arr' = length ?v"
       "\<forall>x. count_list arr' x = count_list ?v x"
       "2 * (length ?v - 1) \<le> c'"
    by blast
  from u(2) have u2: "length arr' = 3" by simp
  from u(3) [rule_format, of "''c''"] have u3: "count_list arr' ''c'' = 1" by simp
  from u(4) have u4: "4 \<le> c'" by simp
  from u(1) u2 u3 u4
  have p5: "\<exists>arr' c'. run (\<lambda>xs. (xs, 0)) 0 ?k [] MsdRadix 0 ?v = Inr (\<lparr>comps = c'\<rparr>, arr', c')
         \<and> length arr' = 3 \<and> count_list arr' ''c'' = 1 \<and> 4 \<le> c'"
    by blast
  from p1 p2 p3 p4 p5 show ?thesis by blast
qed

subsection \<open>The counter\<close>

lemma charge_simps [simp]:
  "charge c (Inl e) = Inl e" "charge c (Inr (arr, k)) = Inr (arr, c + k)"
  by (simp_all add: charge_def)

lemma on_result_simps [simp]:
  "on_result f (Inl e) = Inl e" "on_result f (Inr x) = Inr (f x)"
  by (simp_all add: on_result_def)

lemma charge_charge: "charge c (charge k r) = charge (c + k) r"
  by (cases r) (auto simp add: charge_def)

lemma merge_loop_charge:
  "merge_loop key arr mid right i j temp (c + k)
     = on_result (\<lambda>(i, j, t, n). (i, j, t, c + n)) (merge_loop key arr mid right i j temp k)"
proof (induction key arr mid right i j temp k rule: merge_loop.induct)
  case (1 key arr mid right i j temp k)
  show ?case
    by (subst merge_loop.simps [of _ _ _ _ _ _ _ "c + k"], subst merge_loop.simps [of _ _ _ _ _ _ _ k])
      (use 1 in simp)
qed

lemma mergeSortLCP_charge:
  "mergeSortLCP key (arr, c + k) left right = charge c (mergeSortLCP key (arr, k) left right)"
proof (induction key "(arr, k)" left right arbitrary: arr k rule: mergeSortLCP.induct)
  case (1 key arr k left right)
  show ?case
  proof (cases "right < left \<or> right - left \<le> 1")
    case True
    then show ?thesis
      by (auto simp add: mergeSortLCP.simps [of key arr] )
  next
    case False
    define mid where "mid = (left + right) div 2"
    from False have g: "\<not> right < left" "\<not> right - left \<le> 1" by auto
    have a: "mergeSortLCP key (arr, c + k) left mid = charge c (mergeSortLCP key (arr, k) left mid)"
      using "1.hyps"(1) [OF g mid_def] .
    show ?thesis
    proof (cases "mergeSortLCP key (arr, k) left mid")
      case (Inl e)
      with a g show ?thesis
        by (simp add: mergeSortLCP.simps [of key arr _ left right] mid_def [symmetric])
    next
      case (Inr st1)
      obtain arr1 k1 where st1: "st1 = (arr1, k1)" by (cases st1)
      have b: "mergeSortLCP key (arr1, c + k1) mid right = charge c (mergeSortLCP key (arr1, k1) mid right)"
        using "1.hyps"(2) [OF g mid_def Inr [unfolded st1]] .
      show ?thesis
      proof (cases "mergeSortLCP key (arr1, k1) mid right")
        case (Inl e)
        with a b g Inr st1 show ?thesis
          by (simp add: mergeSortLCP.simps [of key arr _ left right] mid_def [symmetric])
      next
        case r2: (Inr st2)
        obtain arr2 k2 where st2: "st2 = (arr2, k2)" by (cases st2)
        note m = merge_loop_charge [of key arr2 mid right left mid "[]" c k2]
        show ?thesis
        proof (cases "merge_loop key arr2 mid right left mid [] k2")
          case (Inl e)
          with a b g Inr st1 r2 st2 m show ?thesis
            by (simp add: mergeSortLCP.simps [of key arr _ left right] mid_def [symmetric])
        next
          case r3: (Inr q)
          obtain i j t n where q: "q = (i, j, t, n)" by (cases q)
          with a b g Inr st1 r2 st2 m r3 show ?thesis
            by (simp add: mergeSortLCP.simps [of key arr _ left right] mid_def [symmetric]
                split: sum.splits)
        qed
      qed
    qed
  qed
qed


lemma tqs_loop_charge:
  "tqs_loop key (arr, c + k) lo lt i gt
     = on_result (\<lambda>((a, n), lt', gt'). ((a, c + n), lt', gt')) (tqs_loop key (arr, k) lo lt i gt)"
proof (induction key "(arr, k)" lo lt i gt arbitrary: arr k rule: tqs_loop.induct)
  case (1 key arr k lo lt i gt)
  show ?case
    by (subst tqs_loop.simps [of key arr "c + k"], subst tqs_loop.simps [of key arr k])
      (use 1 in simp)
qed

lemma ternaryQuickSort_charge:
  "ternaryQuickSort key (arr, c + k) lo hi = charge c (ternaryQuickSort key (arr, k) lo hi)"
proof (induction key "(arr, k)" lo hi arbitrary: arr k rule: ternaryQuickSort.induct)
  case (1 key arr k lo hi)
  show ?case
  proof (cases "lo \<ge> hi \<or> \<not> in_range arr lo")
    case True
    then show ?thesis
      by (auto simp add: ternaryQuickSort.simps [of key arr _ lo hi])
  next
    case False
    then have g: "\<not> hi \<le> lo" "\<not> \<not> in_range arr lo" by auto
    note l = tqs_loop_charge [of key arr c k lo lo "lo + 1" hi]
    show ?thesis
    proof (cases "tqs_loop key (arr, k) lo lo (lo + 1) hi")
      case (Inl e)
      with g l show ?thesis
        by (simp add: ternaryQuickSort.simps [of key arr _ lo hi])
    next
      case (Inr q)
      obtain arr1 k1 lt gt where q: "q = ((arr1, k1), lt, gt)" by (cases q) auto
      have a: "ternaryQuickSort key (arr1, c + k1) lo (lt - 1)
          = charge c (ternaryQuickSort key (arr1, k1) lo (lt - 1))"
        using "1.hyps"(1) [OF g Inr [unfolded q] refl refl] .
      show ?thesis
      proof (cases "ternaryQuickSort key (arr1, k1) lo (lt - 1)")
        case (Inl e)
        with g l Inr q a show ?thesis
          by (simp add: ternaryQuickSort.simps [of key arr _ lo hi])
      next
        case r2: (Inr st2)
        obtain arr2 k2 where st2: "st2 = (arr2, k2)" by (cases st2)
        have b: "ternaryQuickSort key (arr2, c + k2) (gt + 1) hi
            = charge c (ternaryQuickSort key (arr2, k2) (gt + 1) hi)"
          using "1.hyps"(2) [OF g Inr [unfolded q] refl refl r2 [unfolded st2]] .
        from g l Inr q a r2 st2 b show ?thesis
          by (simp add: ternaryQuickSort.simps [of key arr _ lo hi])
      qed
    qed
  qed
qed

lemma suffixLess_charge:
  "suffixLess a b d (c + k) = (fst (suffixLess a b d k), c + snd (suffixLess a b d k))"
  by (subst suffixLess_eq, subst (2) suffixLess_eq, subst (3) suffixLess_eq) simp


lemma tqss_loop_charge:
  "tqss_loop key (arr, c + k) lo lt i gt d
     = on_result (\<lambda>((a, n), lt', gt'). ((a, c + n), lt', gt')) (tqss_loop key (arr, k) lo lt i gt d)"
proof (induction key "(arr, k)" lo lt i gt d arbitrary: arr k rule: tqss_loop.induct)
  case (1 key arr k lo lt i gt d)
  let ?x = "key (arr ! nat i)" and ?p = "key (arr ! nat lo)"
  define n where "n = lcp_len (drop d ?x) (drop d ?p) + 1"
  define b1 where "b1 = fst (suffixLess ?x ?p d 0)"
  define b2 where "b2 = fst (suffixLess ?p ?x d 0)"
  have s1: "suffixLess ?x ?p d c' = (b1, c' + n)" for c'
    unfolding b1_def n_def by (subst suffixLess_eq) simp
  have s2: "suffixLess ?p ?x d c' = (b2, c' + n)" for c'
    unfolding b2_def n_def by (subst suffixLess_eq) (simp add: lcp_len_sym [of "drop d ?p"])
  show ?case
  proof (cases "i \<le> gt \<and> in_range arr i")
    case False
    then show ?thesis
      by (auto simp add: tqss_loop.simps [of key arr _ lo lt i gt d])
  next
    case True
    then have g: "i \<le> gt" "\<not> \<not> in_range arr i" by auto
    show ?thesis
    proof (cases b1)
      case b1: True
      show ?thesis
      proof (cases "in_range arr lt")
        case False
        with g b1 show ?thesis
          by (simp add: tqss_loop.simps [of key arr _ lo lt i gt d] s1)
      next
        case l: True
        from "1.hyps"(1) [OF g s1 [symmetric] eqTrueI [OF b1]] l g b1 show ?thesis
          by (simp add: tqss_loop.simps [of key arr _ lo lt i gt d] s1 add.assoc)
      qed
    next
      case nb1: False
      show ?thesis
      proof (cases b2)
        case b2: True
        show ?thesis
        proof (cases "in_range arr gt")
          case False
          with g nb1 b2 show ?thesis
            by (simp add: tqss_loop.simps [of key arr _ lo lt i gt d] s1 s2)
        next
          case l: True
          from "1.hyps"(2) [OF g s1 [symmetric] iffD2 [OF eq_False nb1] s2 [symmetric] eqTrueI [OF b2]] l g nb1 b2
          show ?thesis
            by (simp add: tqss_loop.simps [of key arr _ lo lt i gt d] s1 s2 add.assoc)
        qed
      next
        case nb2: False
        from "1.hyps"(3) [OF g s1 [symmetric] iffD2 [OF eq_False nb1] s2 [symmetric] iffD2 [OF eq_False nb2]] g nb1 nb2
        show ?thesis
          by (simp add: tqss_loop.simps [of key arr _ lo lt i gt d] s1 s2 add.assoc)
      qed
    qed
  qed
qed

lemma ternaryQuickSortSuffix_charge:
  "ternaryQuickSortSuffix key (arr, c + k) lo hi d
     = charge c (ternaryQuickSortSuffix key (arr, k) lo hi d)"
proof (induction key "(arr, k)" lo hi d arbitrary: arr k rule: ternaryQuickSortSuffix.induct)
  case (1 key arr k lo hi d)
  show ?case
  proof (cases "lo \<ge> hi \<or> \<not> in_range arr lo")
    case True
    then show ?thesis
      by (auto simp add: ternaryQuickSortSuffix.simps [of key arr _ lo hi d])
  next
    case False
    then have g: "\<not> hi \<le> lo" "\<not> \<not> in_range arr lo" by auto
    note l = tqss_loop_charge [of key arr c k lo lo "lo + 1" hi d]
    show ?thesis
    proof (cases "tqss_loop key (arr, k) lo lo (lo + 1) hi d")
      case (Inl e)
      with g l show ?thesis
        by (simp add: ternaryQuickSortSuffix.simps [of key arr _ lo hi d])
    next
      case (Inr q)
      obtain arr1 k1 lt gt where q: "q = ((arr1, k1), lt, gt)" by (cases q) auto
      have a: "ternaryQuickSortSuffix key (arr1, c + k1) lo (lt - 1) d
          = charge c (ternaryQuickSortSuffix key (arr1, k1) lo (lt - 1) d)"
        using "1.hyps"(1) [OF g Inr [unfolded q] refl refl] .
      show ?thesis
      proof (cases "ternaryQuickSortSuffix key (arr1, k1) lo (lt - 1) d")
        case (Inl e)
        with g l Inr q a show ?thesis
          by (simp add: ternaryQuickSortSuffix.simps [of key arr _ lo hi d])
      next
        case r2: (Inr st2)
        obtain arr2 k2 where st2: "st2 = (arr2, k2)" by (cases st2)
        have b: "ternaryQuickSortSuffix key (arr2, c + k2) (gt + 1) hi d
            = charge c (ternaryQuickSortSuffix key (arr2, k2) (gt + 1) hi d)"
          using "1.hyps"(2) [OF g Inr [unfolded q] refl refl r2 [unfolded st2]] .
        from g l Inr q a r2 st2 b show ?thesis
          by (simp add: ternaryQuickSortSuffix.simps [of key arr _ lo hi d])
      qed
    qed
  qed
qed

lemma count_pass_charge:
  "count_pass key arr d i right count (c + k)
     = on_result (\<lambda>(cnt, n). (cnt, c + n)) (count_pass key arr d i right count k)"
proof (induction key arr d i right count k rule: count_pass.induct)
  case (1 key arr d i right count k)
  show ?case
    by (subst count_pass.simps [of _ _ _ _ _ _ "c + k"], subst count_pass.simps [of _ _ _ _ _ _ k])
      (use 1 in \<open>simp add: Let_def\<close>)
qed

lemma bucket_loop_charge:
  assumes rec: "\<And>arr k l r. rec (arr, c + k) l r = charge c (rec (arr, k) l r)"
  shows "bucket_loop rec count left r (arr, c + k) = charge c (bucket_loop rec count left r (arr, k))"
  using rec
proof (induction rec count left r "(arr, k)" arbitrary: arr k rule: bucket_loop.induct)
  case (1 rec count left r arr k)
  note rc = "1.prems" [of arr k "left + count ! r" "left + count ! (r + 1)"]
  show ?case
  proof (cases "r < R \<and> \<not> length count \<le> r + 1")
    case False
    then show ?thesis
      by (auto simp add: bucket_loop.simps [of rec count left r])
  next
    case True
    then have g: "r < R" "\<not> length count \<le> r + 1" by auto
    show ?thesis
    proof (cases "rec (arr, k) (left + count ! r) (left + count ! (r + 1))")
      case (Inl e)
      with g rc show ?thesis
        by (simp add: bucket_loop.simps [of rec count left r])
    next
      case (Inr st1)
      obtain arr1 k1 where st1: "st1 = (arr1, k1)" by (cases st1)
      from "1.hyps" [OF g Inr [unfolded st1] "1.prems"] g rc Inr st1 show ?thesis
        by (simp add: bucket_loop.simps [of rec count left r])
    qed
  qed
qed

lemma radix_pass_charge:
  assumes rec: "\<And>arr k l r. rec (arr, c + k) l r = charge c (rec (arr, k) l r)"
  shows "radix_pass rec key emp (arr, c + k) left right d
    = charge c (radix_pass rec key emp (arr, k) left right d)"
proof -
  note cp = count_pass_charge [of key arr d left right "replicate (R + 2) 0" c k]
  show ?thesis
  proof (cases "count_pass key arr d left right (replicate (R + 2) 0) k")
    case (Inl e)
    with cp show ?thesis by (simp add: radix_pass_def)
  next
    case (Inr q)
    obtain count1 k1 where q: "q = (count1, k1)" by (cases q)
    from cp Inr q show ?thesis
      by (simp add: radix_pass_def bucket_loop_charge [OF rec] split: sum.splits prod.splits)
  qed
qed

lemma msdRadixSort_charge:
  "msdRadixSort fuel key emp (arr, c + k) left right d
     = charge c (msdRadixSort fuel key emp (arr, k) left right d)"
proof (induction fuel arbitrary: arr k left right d)
  case 0
  show ?case
    by (simp add: msdRadixSort.simps [of 0] ternaryQuickSortSuffix_charge)
next
  case (Suc n)
  have "radix_pass (\<lambda>st' l r. msdRadixSort n key emp st' l r (d + 1)) key emp (arr, c + k) left right d
    = charge c (radix_pass (\<lambda>st' l r. msdRadixSort n key emp st' l r (d + 1)) key emp (arr, k) left right d)"
    by (rule radix_pass_charge) (rule Suc)
  then show ?case
    by (simp add: msdRadixSort.simps [of "Suc n"] ternaryQuickSortSuffix_charge)
qed

lemma msdRadixSortPure_charge:
  "msdRadixSortPure fuel key emp (arr, c + k) left right d
     = charge c (msdRadixSortPure fuel key emp (arr, k) left right d)"
proof (induction fuel arbitrary: arr k left right d)
  case 0
  show ?case
    by (simp add: msdRadixSortPure.simps [of 0])
next
  case (Suc n)
  have "radix_pass (\<lambda>st' l r. msdRadixSortPure n key emp st' l r (d + 1)) key emp (arr, c + k) left right d
    = charge c (radix_pass (\<lambda>st' l r. msdRadixSortPure n key emp st' l r (d + 1)) key emp (arr, k) left right d)"
    by (rule radix_pass_charge) (rule Suc)
  then show ?case
    by (simp add: msdRadixSortPure.simps [of "Suc n"])
qed

lemma dispatch_charge:
  "dispatch std_sort fuel key emp algo (arr, c + k)
     = charge c (dispatch std_sort fuel key emp algo (arr, k))"
  by (cases algo)
    (simp_all add: dispatch_def mergeSortLCP_charge ternaryQuickSort_charge msdRadixSort_charge
      msdRadixSortPure_charge add.assoc split: prod.splits)

text \<open>
  C9: \<open>run\<close> sets the counter to zero before the algorithm starts and reads it when the
  algorithm has ended.  The count in the result is the value of the member \<^verbatim>\<open>comps\<close>
  afterwards, it is the same whatever the member held before the call, and it is the
  number of increments the algorithm makes on this vector: started on a counter that
  holds \<open>c\<close>, the algorithm ends with the same vector and the counter at \<open>c\<close> plus that
  count.
\<close>

theorem run_comps_scoped:
  assumes "run std_sort fuel key emp algo comps0 arr = Inr (res, arr', comps1)"
  shows "comps1 = comps res
    \<and> run std_sort fuel key emp algo comps0' arr = Inr (res, arr', comps1)
    \<and> dispatch std_sort fuel key emp algo (arr, c) = Inr (arr', c + comps res)"
proof -
  from assms have d: "dispatch std_sort fuel key emp algo (arr, 0) = Inr (arr', comps1)"
    and r: "comps res = comps1"
    by (auto simp add: run_def split: sum.splits)
  from assms have i: "run std_sort fuel key emp algo comps0' arr = Inr (res, arr', comps1)"
    by (simp add: run_def)
  from dispatch_charge [of std_sort fuel key emp algo arr c 0] d r i show ?thesis
    by simp
qed

theorem run_comps_scoped_witness:
  "run (\<lambda>xs. (xs, 0)) 0 (\<lambda>s. s) [] TernaryQuick 7 [''b'', ''a'']
     = Inr (\<lparr>comps = 1\<rparr>, [''a'', ''b''], 1)
   \<and> run (\<lambda>xs. (xs, 0)) 0 (\<lambda>s. s) [] TernaryQuick 0 [''b'', ''a'']
     = Inr (\<lparr>comps = 1\<rparr>, [''a'', ''b''], 1)
   \<and> dispatch (\<lambda>xs. (xs, 0)) 0 (\<lambda>s. s) [] TernaryQuick ([''b'', ''a''], 5)
     = Inr ([''a'', ''b''], 6)"
proof -
  have r: "run (\<lambda>xs. (xs, 0)) 0 (\<lambda>s. s) [] TernaryQuick 7 [''b'', ''a'']
     = Inr (\<lparr>comps = 1\<rparr>, [''a'', ''b''], 1)"
    by (simp add: run_eval tqs_eval)
  from run_comps_scoped [OF r, of 0 5] r show ?thesis
    by simp
qed

subsection \<open>PrefixMergeSort and its comparison count\<close>

lemma slice_Nil: "b \<le> a \<Longrightarrow> slice arr a b = []"
  by (simp add: slice_def)

lemma slice_Cons: "a < b \<Longrightarrow> b \<le> length arr \<Longrightarrow> slice arr a b = arr ! a # slice arr (a + 1) b"
proof -
  assume a: "a < b" "b \<le> length arr"
  then have "drop a arr = arr ! a # drop (Suc a) arr"
    by (simp add: Cons_nth_drop_Suc)
  moreover from a have "b - a = Suc (b - (a + 1))" by simp
  ultimately show ?thesis by (simp add: slice_def)
qed

lemma copy_rest_spec:
  "stop \<le> length arr \<Longrightarrow> copy_rest arr i stop temp = Inr (temp @ slice arr i stop)"
proof (induction arr i stop temp rule: copy_rest.induct)
  case (1 arr i stop temp)
  show ?case
  proof (cases "i < stop")
    case True
    with "1.prems" have "\<not> length arr \<le> i" by simp
    with True "1.IH" [OF True this "1.prems"] "1.prems" show ?thesis
      by (simp add: copy_rest.simps [of arr i stop temp] slice_Cons)
  next
    case False
    then show ?thesis
      by (simp add: copy_rest.simps [of arr i stop temp] slice_Nil)
  qed
qed

lemma merge_phase_step:
  "i < mid \<Longrightarrow> j < right \<Longrightarrow> i < length arr \<Longrightarrow> j < length arr \<Longrightarrow>
   merge_phase key arr mid right i j temp c =
     (if key (arr ! i) \<le> key (arr ! j)
      then merge_phase key arr mid right (i + 1) j (temp @ [arr ! i]) (c + 1)
      else merge_phase key arr mid right i (j + 1) (temp @ [arr ! j]) (c + 1))"
  by (simp add: merge_phase_def merge_loop.simps [of key arr mid right i j temp c])

lemma merge_phase_stop:
  "\<not> (i < mid \<and> j < right) \<Longrightarrow> mid \<le> length arr \<Longrightarrow> right \<le> length arr \<Longrightarrow>
   merge_phase key arr mid right i j temp c = Inr (temp @ slice arr i mid @ slice arr j right, c)"
  by (cases "i < mid")
    (simp_all add: merge_phase_def merge_loop.simps [of key arr mid right i j temp c] copy_rest_spec)

lemma merge_phase_spec:
  "mid \<le> length arr \<Longrightarrow> right \<le> length arr \<Longrightarrow>
   merge_phase key arr mid right i j temp c =
     Inr (temp @ fst (merge_spec key (slice arr i mid) (slice arr j right)),
          c + snd (merge_spec key (slice arr i mid) (slice arr j right)))"
proof (induction key arr mid right i j temp c rule: merge_loop.induct)
  case (1 key arr mid right i j temp c)
  show ?case
  proof (cases "i < mid \<and> j < right")
    case False
    then have "slice arr i mid = [] \<or> slice arr j right = []"
      by (auto simp add: slice_Nil)
    then have "merge_spec key (slice arr i mid) (slice arr j right)
        = (slice arr i mid @ slice arr j right, 0)"
      by (cases "slice arr i mid") auto
    with False "1.prems" show ?thesis
      by (simp add: merge_phase_stop)
  next
    case True
    with "1.prems" have b: "\<not> (length arr \<le> i \<or> length arr \<le> j)" by auto
    from True "1.prems" have si: "slice arr i mid = arr ! i # slice arr (i + 1) mid"
      and sj: "slice arr j right = arr ! j # slice arr (j + 1) right"
      by (simp_all add: slice_Cons)
    show ?thesis
    proof (cases "key (arr ! i) \<le> key (arr ! j)")
      case le: True
      have "merge_spec key (slice arr i mid) (slice arr j right)
          = merge_spec key (arr ! i # slice arr (i + 1) mid) (arr ! j # slice arr (j + 1) right)"
        by (simp only: si [symmetric] sj [symmetric])
      also have "\<dots> = (case merge_spec key (slice arr (i + 1) mid) (arr ! j # slice arr (j + 1) right)
          of (zs, n) \<Rightarrow> (arr ! i # zs, n + 1))"
        using le by simp
      finally have m: "merge_spec key (slice arr i mid) (slice arr j right)
          = (case merge_spec key (slice arr (i + 1) mid) (slice arr j right)
          of (zs, n) \<Rightarrow> (arr ! i # zs, n + 1))"
        by (simp only: sj [symmetric])
      from "1.IH"(1) [OF True b le "1.prems"] True b le show ?thesis
        by (simp add: merge_phase_step m split: prod.splits)
    next
      case gt: False
      have "merge_spec key (slice arr i mid) (slice arr j right)
          = merge_spec key (arr ! i # slice arr (i + 1) mid) (arr ! j # slice arr (j + 1) right)"
        by (simp only: si [symmetric] sj [symmetric])
      also have "\<dots> = (case merge_spec key (arr ! i # slice arr (i + 1) mid) (slice arr (j + 1) right)
          of (zs, n) \<Rightarrow> (arr ! j # zs, n + 1))"
        using gt by simp
      finally have m: "merge_spec key (slice arr i mid) (slice arr j right)
          = (case merge_spec key (slice arr i mid) (slice arr (j + 1) right)
          of (zs, n) \<Rightarrow> (arr ! j # zs, n + 1))"
        by (simp only: si [symmetric])
      from "1.IH"(2) [OF True b gt "1.prems"] True b gt show ?thesis
        by (simp add: merge_phase_step m split: prod.splits)
    qed
  qed
qed

lemma length_merge_spec: "length (fst (merge_spec key xs ys)) = length xs + length ys"
  by (induction key xs ys rule: merge_spec.induct) (auto split: prod.splits)

lemma msort_spec_small: "length xs \<le> 1 \<Longrightarrow> msort_spec key xs = (xs, 0)"
  by (simp add: msort_spec.simps [of key xs])

lemma msort_spec_rec:
  "\<not> length xs \<le> 1 \<Longrightarrow>
   msort_spec key xs =
     (fst (merge_spec key (fst (msort_spec key (take (length xs div 2) xs)))
                          (fst (msort_spec key (drop (length xs div 2) xs)))),
      snd (msort_spec key (take (length xs div 2) xs))
      + snd (msort_spec key (drop (length xs div 2) xs))
      + snd (merge_spec key (fst (msort_spec key (take (length xs div 2) xs)))
                            (fst (msort_spec key (drop (length xs div 2) xs)))))"
  by (simp add: msort_spec.simps [of key xs] split: prod.splits)

lemma length_msort_spec: "length (fst (msort_spec key xs)) = length xs"
proof (induction key xs rule: msort_spec.induct)
  case (1 key xs)
  show ?case
  proof (cases "length xs \<le> 1")
    case True
    then show ?thesis by (simp add: msort_spec_small)
  next
    case False
    obtain ls m where l: "msort_spec key (take (length xs div 2) xs) = (ls, m)"
      by (cases "msort_spec key (take (length xs div 2) xs)")
    from "1.IH"(1) [OF False] "1.IH"(2) [OF False l [symmetric]] False show ?thesis
      by (simp add: msort_spec_rec length_merge_spec)
  qed
qed


lemma mergeSortLCP_unfold:
  "\<not> right < left \<Longrightarrow> \<not> right - left \<le> 1 \<Longrightarrow>
   mergeSortLCP key (arr, c) left right =
     (case mergeSortLCP key (arr, c) left ((left + right) div 2) of
        Inl e \<Rightarrow> Inl e
      | Inr st1 \<Rightarrow>
      case mergeSortLCP key st1 ((left + right) div 2) right of
        Inl e \<Rightarrow> Inl e
      | Inr (arr2, c2) \<Rightarrow>
      case merge_phase key arr2 ((left + right) div 2) right left ((left + right) div 2) [] c2 of
        Inl e \<Rightarrow> Inl e
      | Inr (temp2, c3) \<Rightarrow>
      case copy_into temp2 arr2 left of
        Inl e \<Rightarrow> Inl e
      | Inr arr3 \<Rightarrow> Inr (arr3, c3))"
  by (simp add: mergeSortLCP.simps [of key arr c left right] merge_phase_def Let_def
      split: sum.splits prod.splits)

lemma slice_append_mid:
  "slice (pre @ xs @ post) (length pre) (length pre + length xs) = xs"
  by (simp add: slice_def)

lemma mergeSortLCP_append:
  "mergeSortLCP key (pre @ xs @ post, c) (length pre) (length pre + length xs)
     = Inr (pre @ fst (msort_spec key xs) @ post, c + snd (msort_spec key xs))"
proof (induction "length xs" arbitrary: xs pre post c rule: less_induct)
  case less
  show ?case
  proof (cases "length xs \<le> 1")
    case True
    then show ?thesis
      by (simp add: mergeSortLCP.simps msort_spec_small)
  next
    case False
    define ls where "ls = take (length xs div 2) xs"
    define rs where "rs = drop (length xs div 2) xs"
    define L where "L = fst (msort_spec key ls)"
    define Rs where "Rs = fst (msort_spec key rs)"
    define M where "M = fst (merge_spec key L Rs)"
    have xs: "xs = ls @ rs" by (simp add: ls_def rs_def)
    from False have half: "length xs div 2 = length ls"
      by (simp add: ls_def)
    from False have pos: "0 < length ls" "0 < length rs"
      by (simp_all add: ls_def rs_def)
    have lenL: "length L = length ls" and lenR: "length Rs = length rs"
      by (simp_all add: L_def Rs_def length_msort_spec)
    have lenM: "length M = length ls + length rs"
      by (simp add: M_def length_merge_spec lenL lenR)
    have r: "msort_spec key xs
        = (M, snd (msort_spec key ls) + snd (msort_spec key rs) + snd (merge_spec key L Rs))"
      using False by (simp add: msort_spec_rec M_def L_def Rs_def ls_def rs_def)
    have less_l: "length ls < length xs" and less_r: "length rs < length xs"
      using pos by (simp_all add: xs)
    have mid: "(length pre + (length pre + (length ls + length rs))) div 2 = length pre + length ls"
      using half by (simp add: xs)
    have s1: "mergeSortLCP key (pre @ ls @ rs @ post, c) (length pre) (length pre + length ls)
        = Inr (pre @ L @ rs @ post, c + snd (msort_spec key ls))"
      using less.hyps [OF less_l, of pre "rs @ post" c] by (simp add: L_def)
    have s2: "mergeSortLCP key (pre @ L @ rs @ post, c') (length pre + length ls)
          (length pre + (length ls + length rs))
        = Inr (pre @ L @ Rs @ post, c' + snd (msort_spec key rs))" for c'
      using less.hyps [OF less_r, of "pre @ L" post c'] by (simp add: lenL Rs_def add.assoc)
    have sl1: "slice (pre @ L @ Rs @ post) (length pre) (length pre + length ls) = L"
      using slice_append_mid [of pre L "Rs @ post"] by (simp add: lenL)
    have sl2: "slice (pre @ L @ Rs @ post) (length pre + length ls)
          (length pre + (length ls + length rs)) = Rs"
      using slice_append_mid [of "pre @ L" Rs post] by (simp add: lenL lenR add.assoc)
    have s3: "merge_phase key (pre @ L @ Rs @ post) (length pre + length ls)
          (length pre + (length ls + length rs)) (length pre) (length pre + length ls) [] c'
        = Inr (M, c' + snd (merge_spec key L Rs))" for c'
      by (subst merge_phase_spec) (simp_all add: lenL lenR sl1 sl2 M_def)
    have s4: "copy_into M (pre @ L @ Rs @ post) (length pre) = Inr (pre @ M @ post)"
      by (simp add: copy_into_def lenM lenL lenR)
    have g: "\<not> length pre + (length ls + length rs) < length pre"
      "\<not> length pre + (length ls + length rs) - length pre \<le> 1"
      using pos by (simp, arith)
    have "mergeSortLCP key (pre @ ls @ rs @ post, c) (length pre) (length pre + (length ls + length rs))
        = Inr (pre @ M @ post,
            c + (snd (msort_spec key ls) + snd (msort_spec key rs) + snd (merge_spec key L Rs)))"
      by (subst mergeSortLCP_unfold [OF g]) (simp add: mid s1 s2 s3 s4 add.assoc)
    then show ?thesis
      by (simp add: r) (simp add: xs)
  qed
qed


lemma mergeSortLCP_range:
  assumes "left \<le> right" "right \<le> length arr"
  shows "mergeSortLCP key (arr, c) left right
    = Inr (take left arr @ fst (msort_spec key (slice arr left right)) @ drop right arr,
           c + snd (msort_spec key (slice arr left right)))"
proof -
  have a: "arr = take left arr @ slice arr left right @ drop right arr"
  proof -
    from assms have "drop (right - left) (drop left arr) = drop right arr"
      by simp
    then have "drop left arr = slice arr left right @ drop right arr"
      using append_take_drop_id [of "right - left" "drop left arr"] by (simp add: slice_def)
    then show ?thesis
      using append_take_drop_id [of left arr] by simp
  qed
  from assms have l: "length (take left arr) = left" "length (slice arr left right) = right - left"
    by (simp_all add: slice_def)
  from mergeSortLCP_append [of key "take left arr" "slice arr left right" "drop right arr" c]
  show ?thesis
    using assms by (simp only: l a [symmetric]) simp
qed

lemma run_mergeSortLCP:
  "run std_sort fuel key emp StdMergeLCP comps0 arr
     = Inr (\<lparr>comps = snd (msort_spec key arr)\<rparr>, fst (msort_spec key arr), snd (msort_spec key arr))"
  using mergeSortLCP_append [of key "[]" arr "[]" 0]
  by (cases "msort_spec key arr") (simp add: run_def dispatch_def)

text \<open>
  C7: PrefixMergeSort returns the list and the count of \<open>msort_spec\<close>: on every range
  inside the vector, \<open>mergeSortLCP\<close> replaces the range by the merge-sorted range and
  adds to the counter exactly one for every comparison of two heads in a merge step,
  nothing for the elements copied once a half is exhausted, nothing per character, and
  nothing at all on a range of at most one element.
\<close>

theorem mergeSortLCP_counts:
  "(left \<le> right \<and> right \<le> length arr \<longrightarrow>
      mergeSortLCP key (arr, c) left right
        = Inr (take left arr @ fst (msort_spec key (slice arr left right)) @ drop right arr,
               c + snd (msort_spec key (slice arr left right))))
   \<and> run std_sort fuel key emp StdMergeLCP comps0 arr
       = Inr (\<lparr>comps = snd (msort_spec key arr)\<rparr>, fst (msort_spec key arr),
              snd (msort_spec key arr))
   \<and> (length xs \<le> 1 \<longrightarrow> msort_spec key xs = (xs, 0))
   \<and> merge_spec key [] ys = (ys, 0) \<and> merge_spec key xs [] = (xs, 0)"
proof -
  have "merge_spec key xs [] = (xs, 0)"
    by (cases xs) simp_all
  then show ?thesis
    by (simp add: mergeSortLCP_range run_mergeSortLCP msort_spec_small)
qed

theorem mergeSortLCP_counts_witness:
  "mergeSortLCP (\<lambda>s. s) ([''banana'', ''apple'', ''cherry'', ''apple''], 0) 0 4
     = Inr ([''apple'', ''apple'', ''banana'', ''cherry''], 5)
   \<and> msort_spec (\<lambda>s. s) [''x''] = ([''x''], 0)"
proof -
  have e: "msort_spec (\<lambda>s. s) [''banana'', ''apple'', ''cherry'', ''apple'']
      = ([''apple'', ''apple'', ''banana'', ''cherry''], 5)"
    by (simp add: msort_spec.simps)
  have s: "slice [''banana'', ''apple'', ''cherry'', ''apple''] 0 4
      = [''banana'', ''apple'', ''cherry'', ''apple'']"
    by (simp add: slice_def)
  from mergeSortLCP_counts [of 0 4 "[''banana'', ''apple'', ''cherry'', ''apple'']" "\<lambda>s. s" 0
      _ _ _ _ "[''x'']"]
  show ?thesis
    by (simp add: e s)
qed

subsection \<open>One radix pass is a stable partition by rank\<close>

lemma charToIndex_bounds: "- 1 \<le> charToIndex c \<and> charToIndex c \<le> 74"
proof (cases "find_pos alpha c")
  case None
  then show ?thesis by (simp add: charToIndex_def)
next
  case (Some p)
  from find_pos_Some [OF Some] have "p < 75" by (simp add: length_alpha)
  with Some show ?thesis by (simp add: charToIndex_def)
qed

lemma charAt_bounds: "- 1 \<le> charAt s d \<and> charAt s d \<le> 74"
  using charToIndex_bounds [of "s ! d"] by (simp add: charAt_def)

lemma bkt_index2: "nat (charAt (key x) d + 2) = bkt key d x + 1"
  using charAt_bounds [of "key x" d] unfolding bkt_def by arith

lemma bkt_index1: "nat (charAt (key x) d + 1) = bkt key d x"
  by (simp add: bkt_def)

lemma charAt_index2_ok:
  "bkt key d x \<le> R \<Longrightarrow> length count = R + 2 \<Longrightarrow>
   \<not> (charAt (key x) d + 2 < 0 \<or> int (length count) \<le> charAt (key x) d + 2)"
  using charAt_bounds [of "key x" d] by (simp add: bkt_def R_def)

lemma charAt_index1_ok:
  "length count = R + 2 \<Longrightarrow>
   \<not> (charAt (key x) d + 1 < 0 \<or> int (length count) \<le> charAt (key x) d + 1)"
  using charAt_bounds [of "key x" d] by (simp add: R_def)

lemma zone_Cons:
  "zone key d (x # xs) j = (if bkt key d x = j then x # zone key d xs j else zone key d xs j)"
  by (simp add: zone_def)

lemma zone_Nil [simp]: "zone key d [] j = []"
  by (simp add: zone_def)

lemma off_0 [simp]: "off key d xs 0 = 0"
  by (simp add: off_def)

lemma off_Suc: "off key d xs (Suc j) = off key d xs j + length (zone key d xs j)"
  by (induction xs) (auto simp add: off_def zone_def)

lemma off_top: "\<forall>x\<in>set xs. bkt key d x < m \<Longrightarrow> off key d xs m = length xs"
  by (simp add: off_def)

lemma off_le: "off key d xs j \<le> length xs"
  by (simp add: off_def)

lemma count_pass_spec:
  assumes "right \<le> length arr" "length count = R + 2"
    and "\<forall>x\<in>set (slice arr i right). bkt key d x \<le> R"
  shows "\<exists>count'. count_pass key arr d i right count c = Inr (count', c + (right - i))
    \<and> length count' = R + 2
    \<and> (\<forall>j. count' ! (j + 1) = count ! (j + 1) + length (zone key d (slice arr i right) j))
    \<and> count' ! 0 = count ! 0"
  using assms
proof (induction key arr d i right count c rule: count_pass.induct)
  case (1 key arr d i right count c)
  show ?case
  proof (cases "i < right")
    case False
    with "1.prems" show ?thesis
      by (simp add: count_pass.simps [of key arr d i right count c] slice_Nil)
  next
    case True
    let ?x = "arr ! i"
    let ?count1 = "count[bkt key d ?x + 1 := count ! (bkt key d ?x + 1) + 1]"
    from True "1.prems" have b: "\<not> length arr \<le> i" by simp
    from True "1.prems" have sl: "slice arr i right = ?x # slice arr (i + 1) right"
      by (simp add: slice_Cons)
    with "1.prems" have bx: "bkt key d ?x \<le> R"
      and rest: "\<forall>x\<in>set (slice arr (i + 1) right). bkt key d x \<le> R"
      by simp_all
    note ok = charAt_index2_ok [OF bx "1.prems"(2)]
    have len1: "length ?count1 = R + 2"
      using "1.prems" by simp
    from "1.IH" [OF True b refl ok "1.prems"(1) _ rest, unfolded bkt_index2, OF len1]
    obtain count' where
      r: "count_pass key arr d (i + 1) right ?count1 (c + 1) = Inr (count', c + 1 + (right - (i + 1)))"
      and l: "length count' = R + 2"
      and n: "\<And>j. count' ! (j + 1) = ?count1 ! (j + 1) + length (zone key d (slice arr (i + 1) right) j)"
      and z: "count' ! 0 = ?count1 ! 0"
      by blast
    have "count_pass key arr d i right count c = Inr (count', c + (right - i))"
      using True b ok r
      by (subst count_pass.simps) (simp add: Let_def bkt_index2)
    moreover have "count' ! (j + 1) = count ! (j + 1) + length (zone key d (slice arr i right) j)" for j
      using n [of j] bx "1.prems"(2)
      by (cases "bkt key d ?x = j") (simp_all add: sl zone_Cons)
    moreover have "count' ! 0 = count ! 0"
      using z by simp
    ultimately show ?thesis
      using l by blast
  qed
qed

lemma prefix_pass_spec:
  assumes "length count = R + 2" "r \<le> R + 1"
    and "\<forall>j\<le>r. count ! j = f j"
    and "\<forall>j. r < j \<and> j \<le> R + 1 \<longrightarrow> count ! j = g (j - 1)"
    and step: "\<And>j. f (Suc j) = f j + g j"
  shows "\<exists>count'. prefix_pass r count = Inr count' \<and> length count' = R + 2
    \<and> (\<forall>j\<le>R + 1. count' ! j = f j)"
  using assms(1-4)
proof (induction r count rule: prefix_pass.induct)
  case (1 r count)
  show ?case
  proof (cases "r < R + 1")
    case False
    then have "prefix_pass r count = Inr count"
      by (subst prefix_pass.simps) simp
    moreover from False "1.prems" have "r = R + 1" by simp
    ultimately show ?thesis
      using "1.prems" by simp
  next
    case True
    let ?count1 = "count[r + 1 := count ! (r + 1) + count ! r]"
    from "1.prems" have b: "\<not> length count \<le> r + 1" using True by simp
    from "1.prems" True have cr: "count ! r = f r" and cr1: "count ! (r + 1) = g r"
      by simp_all
    have p1: "length ?count1 = R + 2" using "1.prems" by simp
    have p2: "r + 1 \<le> R + 1" using True by simp
    have p3: "\<forall>j\<le>r + 1. ?count1 ! j = f j"
    proof (intro allI impI)
      fix j assume "j \<le> r + 1"
      then consider "j = r + 1" | "j \<le> r" by arith
      then show "?count1 ! j = f j"
      proof cases
        case 1
        with b cr cr1 step [of r] show ?thesis by simp
      next
        case 2
        with "1.prems" show ?thesis by simp
      qed
    qed
    have p4: "\<forall>j. r + 1 < j \<and> j \<le> R + 1 \<longrightarrow> ?count1 ! j = g (j - 1)"
      using "1.prems" by simp
    from "1.IH" [OF True b p1 p2 p3 p4]
    show ?thesis
      using True b by (subst prefix_pass.simps) simp
  qed
qed

lemma copy_back_spec:
  "left + length aux \<le> length arr \<Longrightarrow> i \<le> length aux \<Longrightarrow>
   copy_back arr left aux i
     = Inr (take (left + i) arr @ drop i aux @ drop (left + length aux) arr)"
proof (induction arr left aux i rule: copy_back.induct)
  case (1 arr left aux i)
  show ?case
  proof (cases "i < length aux")
    case False
    then have "copy_back arr left aux i = Inr arr"
      by (subst copy_back.simps) simp
    moreover from False "1.prems" have "i = length aux" by simp
    ultimately show ?thesis
      using "1.prems" by simp
  next
    case True
    let ?arr1 = "arr[left + i := aux ! i]"
    from True "1.prems" have b: "\<not> length arr \<le> left + i" by simp
    have a: "take (left + (i + 1)) ?arr1 = take (left + i) arr @ [aux ! i]"
      using b by (simp add: take_Suc_conv_app_nth)
    have d: "drop (left + length aux) ?arr1 = drop (left + length aux) arr"
      using True by simp
    have e: "drop i aux = aux ! i # drop (i + 1) aux"
      using True by (simp add: Cons_nth_drop_Suc)
    from "1.IH" [OF True b] "1.prems" True
    have "copy_back ?arr1 left aux (i + 1)
        = Inr (take (left + (i + 1)) ?arr1 @ drop (i + 1) aux @ drop (left + length aux) ?arr1)"
      by simp
    then show ?thesis
      using True b by (subst copy_back.simps) (simp only: a d e, simp)
  qed
qed

lemma take_slice: "a \<le> b \<Longrightarrow> take b ys = take a ys @ slice ys a b"
  using take_add [of a "b - a" ys] by (simp add: slice_def)

lemma slices_concat:
  assumes "\<forall>j<m. slice ys (p j) (p (Suc j)) = Z j" "p 0 = 0" "\<forall>j<m. p j \<le> p (Suc j)"
  shows "take (p m) ys = concat (map Z [0..<m])"
  using assms
proof (induction m)
  case 0
  then show ?case by simp
next
  case (Suc m)
  then have "take (p m) ys = concat (map Z [0..<m])" by simp
  moreover from Suc.prems have "p m \<le> p (Suc m)" by simp
  then have "take (p (Suc m)) ys = take (p m) ys @ slice ys (p m) (p (Suc m))"
    by (rule take_slice)
  moreover from Suc.prems have "slice ys (p m) (p (Suc m)) = Z m" by simp
  ultimately show ?case
    by simp
qed

lemma place_pass_spec:
  assumes "right \<le> length arr" "length count = R + 2"
    and "\<forall>x\<in>set (slice arr i right). bkt key d x \<le> R"
    and "\<forall>j\<le>R. count ! j + length (zone key d (slice arr i right) j) = e j"
    and "\<forall>j j'. j < j' \<and> j' \<le> R \<longrightarrow> e j \<le> count ! j'"
    and "\<forall>j\<le>R. e j \<le> length aux"
  shows "\<exists>count' aux'. place_pass key arr d i right count aux = Inr (count', aux')
    \<and> length count' = R + 2 \<and> length aux' = length aux
    \<and> (\<forall>j\<le>R. count' ! j = e j)
    \<and> (\<forall>j\<le>R. slice aux' (count ! j) (e j) = zone key d (slice arr i right) j)
    \<and> (\<forall>p<length aux. (\<forall>j\<le>R. p < count ! j \<or> e j \<le> p) \<longrightarrow> aux' ! p = aux ! p)"
  using assms
proof (induction key arr d i right count aux rule: place_pass.induct)
  case (1 key arr d i right count aux)
  note inv1 = "1.prems"(4) and inv2 = "1.prems"(5) and inv3 = "1.prems"(6)
  show ?case
  proof (cases "i < right")
    case False
    then have "place_pass key arr d i right count aux = Inr (count, aux)"
      by (subst place_pass.simps) simp
    moreover from False have sl: "slice arr i right = []" by (simp add: slice_Nil)
    moreover from inv1 have ce: "\<forall>j\<le>R. count ! j = e j" by (simp add: sl)
    moreover from ce have "\<forall>j\<le>R. slice aux (count ! j) (e j) = []"
      by (simp add: slice_Nil)
    ultimately show ?thesis
      using "1.prems"(2) by simp
  next
    case True
    let ?x = "arr ! i"
    let ?j0 = "bkt key d ?x"
    let ?p = "count ! ?j0"
    define count1 where "count1 = count[?j0 := ?p + 1]"
    define aux1 where "aux1 = aux[?p := ?x]"
    let ?ys = "slice arr (i + 1) right"
    from True "1.prems" have b: "\<not> length arr \<le> i" by simp
    from True "1.prems" have sl: "slice arr i right = ?x # ?ys"
      by (simp add: slice_Cons)
    with "1.prems" have j0: "?j0 \<le> R"
      and rest: "\<forall>x\<in>set ?ys. bkt key d x \<le> R"
      by simp_all
    note ok = charAt_index1_ok [OF "1.prems"(2), of key ?x d]
    from inv1 j0 have "?p + length (zone key d (slice arr i right) ?j0) = e ?j0"
      by blast
    then have pe: "?p + 1 + length (zone key d ?ys ?j0) = e ?j0"
      by (simp add: sl zone_Cons)
    then have p_lt: "?p < e ?j0" by simp
    with inv3 j0 have p_aux: "?p < length aux"
      by (meson less_le_trans)
    then have bp: "\<not> length aux \<le> ?p" by simp
    then have bp': "\<not> length aux \<le> count ! nat (charAt (key ?x) d + 1)"
      by (simp add: bkt_index1)
    have len1: "length count1 = R + 2" using "1.prems"(2) by (simp add: count1_def)
    have j0len: "?j0 < length count" using j0 "1.prems"(2) by simp
    have c1: "count1 ! j = (if j = ?j0 then ?p + 1 else count ! j)" for j
      using j0len by (simp add: count1_def nth_list_update)
    have inv1': "\<forall>j\<le>R. count1 ! j + length (zone key d ?ys j) = e j"
    proof (intro allI impI)
      fix j assume j: "j \<le> R"
      show "count1 ! j + length (zone key d ?ys j) = e j"
      proof (cases "j = ?j0")
        case True
        with pe show ?thesis by (simp add: c1)
      next
        case False
        from inv1 j have "count ! j + length (zone key d (slice arr i right) j) = e j"
          by blast
        with False show ?thesis by (simp add: c1 sl zone_Cons)
      qed
    qed
    have inv2': "\<forall>j j'. j < j' \<and> j' \<le> R \<longrightarrow> e j \<le> count1 ! j'"
    proof (intro allI impI)
      fix j j' assume a: "j < j' \<and> j' \<le> R"
      with inv2 have "e j \<le> count ! j'" by blast
      then show "e j \<le> count1 ! j'" by (auto simp add: c1)
    qed
    have inv3': "\<forall>j\<le>R. e j \<le> length aux1" using inv3 by (simp add: aux1_def)
    from "1.IH" [OF True b refl ok refl bp', unfolded bkt_index1, folded count1_def aux1_def,
        OF "1.prems"(1) len1 rest inv1' inv2' inv3']
    obtain count' aux' where
      r: "place_pass key arr d (i + 1) right count1 aux1 = Inr (count', aux')"
      and lc: "length count' = R + 2" and la: "length aux' = length aux1"
      and ce: "\<forall>j\<le>R. count' ! j = e j"
      and zs: "\<forall>j\<le>R. slice aux' (count1 ! j) (e j) = zone key d ?ys j"
      and fr: "\<forall>p<length aux1. (\<forall>j\<le>R. p < count1 ! j \<or> e j \<le> p) \<longrightarrow> aux' ! p = aux1 ! p"
      by auto
    have la1: "length aux1 = length aux" by (simp add: aux1_def)
    have a1: "aux1 ! q = (if q = ?p then ?x else aux ! q)" for q
      using p_aux by (simp add: aux1_def nth_list_update)
    have res: "place_pass key arr d i right count aux = Inr (count', aux')"
      using True b ok bp r [unfolded count1_def aux1_def]
      by (subst place_pass.simps) (simp add: Let_def bkt_index1)
    have out: "\<forall>j\<le>R. ?p < count1 ! j \<or> e j \<le> ?p"
    proof (intro allI impI)
      fix j assume j: "j \<le> R"
      consider "j = ?j0" | "j < ?j0" | "?j0 < j" by arith
      then show "?p < count1 ! j \<or> e j \<le> ?p"
      proof cases
        case 1
        then show ?thesis by (simp add: c1)
      next
        case 2
        with inv2 j0 have "e j \<le> ?p" by blast
        then show ?thesis by simp
      next
        case 3
        with inv2 j have "e ?j0 \<le> count ! j" by blast
        with p_lt 3 show ?thesis by (simp add: c1)
      qed
    qed
    with fr p_aux la1 have "aux' ! ?p = aux1 ! ?p" by simp
    then have xp: "aux' ! ?p = ?x" by (simp add: a1)
    have zones: "\<forall>j\<le>R. slice aux' (count ! j) (e j) = zone key d (slice arr i right) j"
    proof (intro allI impI)
      fix j assume j: "j \<le> R"
      show "slice aux' (count ! j) (e j) = zone key d (slice arr i right) j"
      proof (cases "j = ?j0")
        case False
        from zs j have "slice aux' (count1 ! j) (e j) = zone key d ?ys j" by blast
        with False show ?thesis by (simp add: c1 sl zone_Cons)
      next
        case True
        from inv3 j0 la la1 have "e ?j0 \<le> length aux'" by simp
        with p_lt have "slice aux' ?p (e ?j0) = aux' ! ?p # slice aux' (?p + 1) (e ?j0)"
          by (simp add: slice_Cons)
        moreover from zs j0 have "slice aux' (count1 ! ?j0) (e ?j0) = zone key d ?ys ?j0"
          by blast
        then have "slice aux' (?p + 1) (e ?j0) = zone key d ?ys ?j0"
          by (simp add: c1)
        ultimately show ?thesis
          using True xp by (simp add: sl zone_Cons)
      qed
    qed
    have frame: "\<forall>p<length aux. (\<forall>j\<le>R. p < count ! j \<or> e j \<le> p) \<longrightarrow> aux' ! p = aux ! p"
    proof (intro allI impI)
      fix q assume q: "q < length aux" and o: "\<forall>j\<le>R. q < count ! j \<or> e j \<le> q"
      from o j0 have q0: "q < ?p \<or> e ?j0 \<le> q" by blast
      with p_lt have ne: "q \<noteq> ?p" by auto
      have "\<forall>j\<le>R. q < count1 ! j \<or> e j \<le> q"
      proof (intro allI impI)
        fix j assume j: "j \<le> R"
        with o have "q < count ! j \<or> e j \<le> q" by blast
        with q0 show "q < count1 ! j \<or> e j \<le> q" by (auto simp add: c1)
      qed
      with fr q la1 have "aux' ! q = aux1 ! q" by simp
      with ne show "aux' ! q = aux ! q" by (simp add: a1)
    qed
    from res lc la la1 ce zones frame show ?thesis by simp
  qed
qed

lemma off_mono: "a \<le> b \<Longrightarrow> off key d xs a \<le> off key d xs b"
proof (induction xs)
  case Nil
  then show ?case by (simp add: off_def)
next
  case (Cons x xs)
  then show ?case by (auto simp add: off_def)
qed

lemma length_zones: "length (concat (map (zone key d xs) [0..<m])) = off key d xs m"
  by (induction m) (simp_all add: off_Suc)

lemma radix_pass_partition:
  assumes bk: "\<forall>x\<in>set xs. bkt key d x \<le> R"
  shows "\<exists>count. length count = R + 2
    \<and> (\<forall>j\<le>R. count ! j = off key d xs (Suc j))
    \<and> radix_pass rec key emp (pre @ xs @ post, c) (length pre) (length pre + length xs) d
        = bucket_loop rec count (length pre) 0
            (pre @ concat (map (zone key d xs) [0..<R + 1]) @ post, c + length xs)"
proof -
  let ?arr = "pre @ xs @ post" and ?left = "length pre" and ?right = "length pre + length xs"
  have sl: "slice ?arr ?left ?right = xs" by (rule slice_append_mid)
  have r: "?right \<le> length ?arr" by simp
  have bk': "\<forall>x\<in>set (slice ?arr ?left ?right). bkt key d x \<le> R"
    using bk by (simp only: sl)
  from count_pass_spec [OF r _ bk', of "replicate (R + 2) 0" c]
  obtain count1 where
    p1: "count_pass key ?arr d ?left ?right (replicate (R + 2) 0) c = Inr (count1, c + length xs)"
    and l1: "length count1 = R + 2"
    and n1: "\<And>j. count1 ! (j + 1) = replicate (R + 2) 0 ! (j + 1) + length (zone key d xs j)"
    and z1: "count1 ! 0 = replicate (R + 2) (0::nat) ! 0"
    by (auto simp add: sl)
  have a1: "\<forall>j\<le>0. count1 ! j = off key d xs j"
    using z1 by simp
  have a2: "\<forall>j. 0 < j \<and> j \<le> R + 1 \<longrightarrow> count1 ! j = length (zone key d xs (j - 1))"
  proof (intro allI impI)
    fix j assume j: "0 < j \<and> j \<le> R + 1"
    then obtain j' where j': "j = j' + 1" "j' \<le> R"
      by (cases j) auto
    then have "replicate (R + 2) (0::nat) ! (j' + 1) = 0"
      by (intro nth_replicate) simp
    with n1 [of j'] have "count1 ! (j' + 1) = length (zone key d xs j')"
      by (simp only: add_0)
    with j' show "count1 ! j = length (zone key d xs (j - 1))" by simp
  qed
  from prefix_pass_spec [OF l1 _ a1 a2 off_Suc]
  obtain count2 where
    p2: "prefix_pass 0 count1 = Inr count2"
    and l2: "length count2 = R + 2"
    and n2: "\<forall>j\<le>R + 1. count2 ! j = off key d xs j"
    by auto
  let ?e = "\<lambda>j. off key d xs (Suc j)"
  let ?aux0 = "replicate (length xs) emp"
  have i1: "\<forall>j\<le>R. count2 ! j + length (zone key d (slice ?arr ?left ?right) j) = ?e j"
    using n2 by (simp add: sl off_Suc)
  have i2: "\<forall>j j'. j < j' \<and> j' \<le> R \<longrightarrow> ?e j \<le> count2 ! j'"
  proof (intro allI impI)
    fix j j' assume a: "j < j' \<and> j' \<le> R"
    with n2 have "count2 ! j' = off key d xs j'" by simp
    with a off_mono [of "Suc j" j' key d xs] show "?e j \<le> count2 ! j'" by simp
  qed
  have i3: "\<forall>j\<le>R. ?e j \<le> length ?aux0"
    by (simp add: off_le)
  from place_pass_spec [OF r l2 bk' i1 i2 i3]
  obtain count3 aux where
    p3: "place_pass key ?arr d ?left ?right count2 ?aux0 = Inr (count3, aux)"
    and l3: "length count3 = R + 2" and la: "length aux = length xs"
    and n3: "\<forall>j\<le>R. count3 ! j = ?e j"
    and zs: "\<forall>j\<le>R. slice aux (count2 ! j) (?e j) = zone key d xs j"
    by (auto simp add: sl)
  have "\<forall>j<R + 1. slice aux (off key d xs j) (off key d xs (Suc j)) = zone key d xs j"
    using zs n2 by simp
  then have "take (off key d xs (R + 1)) aux = concat (map (zone key d xs) [0..<R + 1])"
    by (rule slices_concat) (simp_all add: off_mono)
  moreover from bk have "off key d xs (R + 1) = length xs"
    by (intro off_top) (simp add: less_Suc_eq_le)
  ultimately have aux: "aux = concat (map (zone key d xs) [0..<R + 1])"
    using la by simp
  have p4: "copy_back ?arr ?left aux 0 = Inr (pre @ aux @ post)"
    using copy_back_spec [of ?left aux ?arr 0] la by simp
  have "radix_pass rec key emp (?arr, c) ?left ?right d
      = bucket_loop rec count3 ?left 0 (pre @ aux @ post, c + length xs)"
    using p1 p2 p3 p4 by (simp add: radix_pass_def)
  with l3 n3 aux show ?thesis by blast
qed

lemma zone_0: "zone key d xs 0 = filter (\<lambda>x. charAt (key x) d = - 1) xs"
proof -
  have "bkt key d x = 0 \<longleftrightarrow> charAt (key x) d = - 1" for x
    using charAt_bounds [of "key x" d] unfolding bkt_def by arith
  then show ?thesis by (simp add: zone_def)
qed

lemma zone_Suc: "zone key d xs (Suc r) = filter (\<lambda>x. charAt (key x) d = int r) xs"
proof -
  have "bkt key d x = Suc r \<longleftrightarrow> charAt (key x) d = int r" for x
    using charAt_bounds [of "key x" d] unfolding bkt_def by arith
  then show ?thesis by (simp add: zone_def)
qed

lemma ranked_bkt: "ranked key xs \<Longrightarrow> x \<in> set xs \<Longrightarrow> bkt key d x \<le> R"
proof -
  assume "ranked key xs" "x \<in> set xs"
  then have "charAt (key x) d \<noteq> 74" by (simp add: ranked_def)
  with charAt_bounds [of "key x" d] show ?thesis
    unfolding bkt_def R_def by arith
qed

lemma ranked_zone: "ranked key xs \<Longrightarrow> ranked key (zone key d xs j)"
  by (simp add: ranked_def zone_def)

lemma bucket_loop_spec:
  assumes "length count = R + 2" and "r \<le> R"
    and "count ! r = length D"
    and "\<forall>j. r \<le> j \<and> j < R \<longrightarrow> count ! (j + 1) = count ! j + length (Z (Suc j))"
    and "\<forall>j. r < j \<and> j \<le> R \<longrightarrow>
          (\<forall>pre post c. rec (pre @ Z j @ post, c) (length pre) (length pre + length (Z j))
              = Inr (pre @ F j @ post, c + G j))
          \<and> length (F j) = length (Z j)"
  shows "bucket_loop rec count (length pre) r (pre @ D @ concat (map Z [Suc r..<Suc R]) @ post, c)
     = Inr (pre @ D @ concat (map F [Suc r..<Suc R]) @ post, c + sum_list (map G [Suc r..<Suc R]))"
  using assms
proof (induction "R - r" arbitrary: r D c)
  case 0
  then have "r = R" by simp
  then show ?case
    by (subst bucket_loop.simps) simp
next
  case (Suc m)
  then have lt: "r < R" by simp
  then have u: "[Suc r..<Suc R] = Suc r # [Suc (Suc r)..<Suc R]"
    by (simp add: upt_conv_Cons)
  define restZ where "restZ = concat (map Z [Suc (Suc r)..<Suc R])"
  define restF where "restF = concat (map F [Suc (Suc r)..<Suc R])"
  define restG where "restG = sum_list (map G [Suc (Suc r)..<Suc R])"
  have eZ: "concat (map Z [Suc r..<Suc R]) = Z (Suc r) @ restZ"
    and eF: "concat (map F [Suc r..<Suc R]) = F (Suc r) @ restF"
    and eG: "sum_list (map G [Suc r..<Suc R]) = G (Suc r) + restG"
    by (simp_all only: u list.map concat.simps sum_list.Cons restZ_def restF_def restG_def)
  from Suc.prems(1) lt have b: "\<not> length count \<le> r + 1" by simp
  from Suc.prems(4) lt have c1: "count ! (r + 1) = length D + length (Z (Suc r))"
    using Suc.prems(3) by simp
  have j: "r < Suc r \<and> Suc r \<le> R" using lt by simp
  note k = Suc.prems(5) [rule_format, OF j]
  from k have lenF: "length (F (Suc r)) = length (Z (Suc r))" by blast
  from k have "rec ((pre @ D) @ Z (Suc r) @ (restZ @ post), c)
        (length (pre @ D)) (length (pre @ D) + length (Z (Suc r)))
      = Inr ((pre @ D) @ F (Suc r) @ (restZ @ post), c + G (Suc r))"
    by blast
  then have call: "rec (pre @ D @ Z (Suc r) @ restZ @ post, c)
        (length pre + count ! r) (length pre + count ! (r + 1))
      = Inr (pre @ (D @ F (Suc r)) @ restZ @ post, c + G (Suc r))"
    using c1 by (simp add: Suc.prems(3) add.assoc)
  have m: "m = R - (r + 1)" using Suc.hyps(2) by simp
  have p2: "r + 1 \<le> R" using lt by simp
  have p3: "count ! (r + 1) = length (D @ F (Suc r))" using c1 lenF by simp
  have p4: "\<forall>j. r + 1 \<le> j \<and> j < R \<longrightarrow> count ! (j + 1) = count ! j + length (Z (Suc j))"
    using Suc.prems(4) by simp
  have p5: "\<forall>j. r + 1 < j \<and> j \<le> R \<longrightarrow>
          (\<forall>pre post c. rec (pre @ Z j @ post, c) (length pre) (length pre + length (Z j))
              = Inr (pre @ F j @ post, c + G j))
          \<and> length (F j) = length (Z j)"
    using Suc.prems(5) by simp
  have "bucket_loop rec count (length pre) (r + 1)
        (pre @ (D @ F (Suc r)) @ concat (map Z [Suc (r + 1)..<Suc R]) @ post, c + G (Suc r))
      = Inr (pre @ (D @ F (Suc r)) @ concat (map F [Suc (r + 1)..<Suc R]) @ post,
             c + G (Suc r) + sum_list (map G [Suc (r + 1)..<Suc R]))"
    by (rule Suc.hyps(1) [OF m Suc.prems(1) p2 p3 p4 p5])
  then have rest: "bucket_loop rec count (length pre) (r + 1)
        (pre @ (D @ F (Suc r)) @ restZ @ post, c + G (Suc r))
      = Inr (pre @ D @ (F (Suc r) @ restF) @ post, c + (G (Suc r) + restG))"
    by (simp add: restZ_def restF_def restG_def add.assoc)
  have "bucket_loop rec count (length pre) r (pre @ D @ (Z (Suc r) @ restZ) @ post, c)
      = Inr (pre @ D @ (F (Suc r) @ restF) @ post, c + (G (Suc r) + restG))"
    using lt b call rest
    by (subst bucket_loop.simps) simp
  then show ?case
    by (simp only: eZ eF eG)
qed

lemma length_concat_cong:
  "\<forall>j\<in>set js. length (F j) = length (Z j) \<Longrightarrow>
   length (concat (map F js)) = length (concat (map Z js))"
  by (induction js) simp_all

lemma charAt_nonneg: "0 \<le> charAt s d \<Longrightarrow> d < length s"
  by (simp add: charAt_def split: if_splits)

lemma bkt_pos: "0 < bkt key d x \<Longrightarrow> d < length (key x)"
proof -
  assume "0 < bkt key d x"
  then have "0 \<le> charAt (key x) d" unfolding bkt_def by arith
  then show ?thesis by (rule charAt_nonneg)
qed

lemma upt_zones: "[0..<R + 1] = 0 # [Suc 0..<Suc R]"
  using upt_conv_Cons [of 0 "Suc R"] by simp

lemma radix_spec_Suc:
  "\<not> length xs \<le> 1 \<Longrightarrow>
   radix_spec (Suc n) key xs d =
     (zone key d xs 0
        @ concat (map (\<lambda>j. fst (radix_spec n key (zone key d xs j) (d + 1))) [Suc 0..<Suc R]),
      length xs
        + sum_list (map (\<lambda>j. snd (radix_spec n key (zone key d xs j) (d + 1))) [Suc 0..<Suc R]))"
proof -
  assume a: "\<not> length xs \<le> 1"
  have m: "map f [Suc 0..<Suc R] = map (\<lambda>r. f (Suc r)) [0..<R]" for f :: "nat \<Rightarrow> 'b"
  proof -
    have "map f [Suc 0..<Suc R] = map f (map Suc [0..<R])"
      by (simp only: map_Suc_upt)
    also have "\<dots> = map (\<lambda>r. f (Suc r)) [0..<R]"
      by (simp only: map_map comp_def)
    finally show ?thesis .
  qed
  show ?thesis
    using a by (simp only: m zone_0 zone_Suc radix_spec.simps if_False)
qed

lemma msdRadixSortPure_spec:
  assumes "ranked key xs"
    and "length xs \<le> 1 \<or> (0 < fuel \<and> (\<forall>x\<in>set xs. length (key x) < fuel + d))"
  shows "msdRadixSortPure fuel key emp (pre @ xs @ post, c) (length pre) (length pre + length xs) d
      = Inr (pre @ fst (radix_spec fuel key xs d) @ post, c + snd (radix_spec fuel key xs d))
    \<and> length (fst (radix_spec fuel key xs d)) = length xs"
  using assms
proof (induction fuel arbitrary: xs pre post c d)
  case 0
  then have "length xs \<le> 1" by simp
  then show ?case by (simp add: msdRadixSortPure.simps)
next
  case (Suc n)
  show ?case
  proof (cases "length xs \<le> 1")
    case True
    then show ?thesis by (simp add: msdRadixSortPure.simps)
  next
    case False
    with Suc.prems have short: "\<forall>x\<in>set xs. length (key x) < Suc n + d" by simp
    define Z where "Z = zone key d xs"
    define F where "F = (\<lambda>j. fst (radix_spec n key (Z j) (d + 1)))"
    define G where "G = (\<lambda>j. snd (radix_spec n key (Z j) (d + 1)))"
    define rec where "rec = (\<lambda>st' l r. msdRadixSortPure n key emp st' l r (d + 1))"
    have bk: "\<forall>x\<in>set xs. bkt key d x \<le> R"
      using ranked_bkt [OF Suc.prems(1)] by blast
    from radix_pass_partition [OF bk, of rec emp pre post c] obtain count where
      lc: "length count = R + 2" and n: "\<forall>j\<le>R. count ! j = off key d xs (Suc j)"
      and rp: "radix_pass rec key emp (pre @ xs @ post, c) (length pre) (length pre + length xs) d
        = bucket_loop rec count (length pre) 0
            (pre @ concat (map Z [0..<R + 1]) @ post, c + length xs)"
      unfolding Z_def by blast
    have contract: "\<forall>j. 0 < j \<and> j \<le> R \<longrightarrow>
          (\<forall>pre post c. rec (pre @ Z j @ post, c) (length pre) (length pre + length (Z j))
              = Inr (pre @ F j @ post, c + G j))
          \<and> length (F j) = length (Z j)"
    proof (intro allI impI)
      fix j assume j: "0 < j \<and> j \<le> R"
      have rk: "ranked key (Z j)"
        unfolding Z_def by (rule ranked_zone [OF Suc.prems(1)])
      have fc: "length (Z j) \<le> 1 \<or> (0 < n \<and> (\<forall>x\<in>set (Z j). length (key x) < n + (d + 1)))"
      proof (cases "Z j")
        case Nil
        then show ?thesis by simp
      next
        case (Cons y ys)
        then have "y \<in> set (Z j)" by simp
        then have y: "y \<in> set xs" "bkt key d y = j" by (simp_all add: Z_def zone_def)
        with j have "d < length (key y)" by (intro bkt_pos) simp
        moreover from short y have "length (key y) < Suc n + d" by blast
        ultimately have "0 < n" by simp
        moreover have "\<forall>x\<in>set (Z j). length (key x) < n + (d + 1)"
          using short by (simp add: Z_def zone_def)
        ultimately show ?thesis by simp
      qed
      from Suc.IH [OF rk fc]
      show "(\<forall>pre post c. rec (pre @ Z j @ post, c) (length pre) (length pre + length (Z j))
              = Inr (pre @ F j @ post, c + G j))
          \<and> length (F j) = length (Z j)"
        by (simp add: rec_def F_def G_def)
    qed
    have c0: "count ! 0 = length (Z 0)"
      using n by (simp add: off_Suc Z_def)
    have cs: "\<forall>j. 0 \<le> j \<and> j < R \<longrightarrow> count ! (j + 1) = count ! j + length (Z (Suc j))"
      using n by (simp add: off_Suc Z_def)
    have bl: "bucket_loop rec count (length pre) 0
          (pre @ Z 0 @ concat (map Z [Suc 0..<Suc R]) @ post, c + length xs)
        = Inr (pre @ Z 0 @ concat (map F [Suc 0..<Suc R]) @ post,
               c + length xs + sum_list (map G [Suc 0..<Suc R]))"
      by (rule bucket_loop_spec [OF lc _ c0 cs contract]) simp
    have arr1: "pre @ concat (map Z [0..<R + 1]) @ post
        = pre @ Z 0 @ concat (map Z [Suc 0..<Suc R]) @ post"
      by (simp only: upt_zones list.map concat.simps append_assoc)
    have sp: "radix_spec (Suc n) key xs d
        = (Z 0 @ concat (map F [Suc 0..<Suc R]), length xs + sum_list (map G [Suc 0..<Suc R]))"
      using radix_spec_Suc [OF False, of n key d] by (simp only: Z_def F_def G_def)
    have "\<forall>j\<in>set [Suc 0..<Suc R]. length (F j) = length (Z j)"
    proof
      fix j assume "j \<in> set [Suc 0..<Suc R]"
      then have "Suc 0 \<le> j \<and> j < Suc R"
        by (simp only: set_upt atLeastLessThan_iff)
      then have "0 < j \<and> j \<le> R" by arith
      with contract show "length (F j) = length (Z j)" by blast
    qed
    then have "length (concat (map F [Suc 0..<Suc R])) = length (concat (map Z [Suc 0..<Suc R]))"
      by (rule length_concat_cong)
    then have "length (Z 0 @ concat (map F [Suc 0..<Suc R]))
        = length (concat (map Z [0..<R + 1]))"
      by (simp only: upt_zones list.map concat.simps length_append)
    also have "\<dots> = off key d xs (R + 1)"
      unfolding Z_def by (rule length_zones)
    also from bk have "\<dots> = length xs"
      by (intro off_top) (simp add: less_Suc_eq_le)
    finally have len: "length (Z 0 @ concat (map F [Suc 0..<Suc R])) = length xs" .
    have "msdRadixSortPure (Suc n) key emp (pre @ xs @ post, c) (length pre)
          (length pre + length xs) d
        = radix_pass rec key emp (pre @ xs @ post, c) (length pre) (length pre + length xs) d"
      using False by (simp add: msdRadixSortPure.simps rec_def)
    also have "\<dots> = Inr (pre @ Z 0 @ concat (map F [Suc 0..<Suc R]) @ post,
               c + length xs + sum_list (map G [Suc 0..<Suc R]))"
      by (simp only: rp arr1 bl)
    finally show ?thesis
      using len by (simp only: sp fst_conv snd_conv append_assoc add.assoc)
  qed
qed

subsection \<open>MsdRadixPure through \<open>run\<close>\<close>

lemma no_dot_ranked:
  assumes "\<forall>x\<in>set xs. CHR ''.'' \<notin> set (key x)"
  shows "ranked key xs"
  unfolding ranked_def
proof (intro ballI allI notI)
  fix x d assume x: "x \<in> set xs" and c: "charAt (key x) d = 74"
  then have d: "d < length (key x)" and ci: "charToIndex (key x ! d) = 74"
    by (simp_all add: charAt_def split: if_splits)
  from ci obtain p where p: "find_pos alpha (key x ! d) = Some p" and "int p = 74"
    by (cases "find_pos alpha (key x ! d)") (simp_all add: charToIndex_def)
  then have "p = 74" by simp
  with find_pos_Some [OF p] have "key x ! d = alpha ! 74" by simp
  also have "\<dots> = CHR ''.''" by (simp add: alpha_def)
  finally have "CHR ''.'' \<in> set (key x)" using d by (metis nth_mem)
  with assms x show False by blast
qed

lemma run_msdRadixSortPure:
  assumes "ranked key arr"
    and "length arr \<le> 1 \<or> (0 < fuel \<and> (\<forall>x\<in>set arr. length (key x) < fuel))"
  shows "run std_sort fuel key emp MsdRadixPure comps0 arr
    = Inr (\<lparr>comps = snd (radix_spec fuel key arr 0)\<rparr>, fst (radix_spec fuel key arr 0),
           snd (radix_spec fuel key arr 0))"
proof -
  from assms(2) have "length arr \<le> 1 \<or> (0 < fuel \<and> (\<forall>x\<in>set arr. length (key x) < fuel + 0))"
    by simp
  from msdRadixSortPure_spec [OF assms(1) this, of emp "[]" "[]" 0]
  show ?thesis
    by (cases "radix_spec fuel key arr 0") (simp add: run_def dispatch_def)
qed

subsection \<open>Equal strings keep their order in the merge and in the partition\<close>

lemma merge_spec_le:
  "key x \<le> key y \<Longrightarrow>
   fst (merge_spec key (x # xs) (y # ys)) = x # fst (merge_spec key xs (y # ys))"
  by (simp split: prod.splits)

lemma merge_spec_gt:
  "\<not> key x \<le> key y \<Longrightarrow>
   fst (merge_spec key (x # xs) (y # ys)) = y # fst (merge_spec key (x # xs) ys)"
  by (simp split: prod.splits)

lemma set_merge_spec: "set (fst (merge_spec key xs ys)) = set xs \<union> set ys"
proof (induction key xs ys rule: merge_spec.induct)
  case (1 key ys)
  show ?case by simp
next
  case (2 key x xs)
  show ?case by simp
next
  case (3 key x xs y ys)
  show ?case
  proof (cases "key x \<le> key y")
    case True
    with "3.IH"(1) [OF True] show ?thesis
      by (simp only: merge_spec_le [of key x y, OF True]) auto
  next
    case False
    with "3.IH"(2) [OF False] show ?thesis
      by (simp only: merge_spec_gt [of key x y, OF False]) auto
  qed
qed

lemma sorted_merge_spec:
  "sorted (map key xs) \<Longrightarrow> sorted (map key ys) \<Longrightarrow>
   sorted (map key (fst (merge_spec key xs ys)))"
proof (induction key xs ys rule: merge_spec.induct)
  case (1 key ys)
  then show ?case by simp
next
  case (2 key x xs)
  then show ?case by simp
next
  case (3 key x xs y ys)
  from "3.prems" have b: "\<forall>z\<in>set xs. key x \<le> key z" and c: "\<forall>z\<in>set ys. key y \<le> key z"
    and sx: "sorted (map key xs)" and sy: "sorted (map key ys)"
    by auto
  show ?case
  proof (cases "key x \<le> key y")
    case True
    from "3.IH"(1) [OF True sx "3.prems"(2)]
    have "sorted (map key (fst (merge_spec key xs (y # ys))))" .
    moreover have "\<forall>z\<in>set (fst (merge_spec key xs (y # ys))). key x \<le> key z"
      using b c True by (auto simp add: set_merge_spec)
    ultimately show ?thesis
      by (simp add: merge_spec_le [of key x y, OF True] del: merge_spec.simps)
  next
    case False
    then have lt: "key y \<le> key x" by simp
    from "3.IH"(2) [OF False "3.prems"(1) sy]
    have "sorted (map key (fst (merge_spec key (x # xs) ys)))" .
    moreover have "\<forall>z\<in>set (fst (merge_spec key (x # xs) ys)). key y \<le> key z"
      using b c lt by (auto simp add: set_merge_spec)
    ultimately show ?thesis
      by (simp add: merge_spec_gt [of key x y, OF False] del: merge_spec.simps)
  qed
qed

lemma filter_merge_spec:
  "sorted (map key xs) \<Longrightarrow> sorted (map key ys) \<Longrightarrow>
   filter (\<lambda>x. key x = k) (fst (merge_spec key xs ys))
     = filter (\<lambda>x. key x = k) xs @ filter (\<lambda>x. key x = k) ys"
proof (induction key xs ys rule: merge_spec.induct)
  case (1 key ys)
  then show ?case by simp
next
  case (2 key x xs)
  then show ?case by simp
next
  case (3 key x xs y ys)
  from "3.prems" have b: "\<forall>z\<in>set xs. key x \<le> key z"
    and sx: "sorted (map key xs)" and sy: "sorted (map key ys)"
    by auto
  show ?case
  proof (cases "key x \<le> key y")
    case True
    from "3.IH"(1) [OF True sx "3.prems"(2)] show ?thesis
      by (simp add: merge_spec_le [of key x y, OF True] del: merge_spec.simps)
  next
    case False
    have e: "filter (\<lambda>x. key x = k) (x # xs) = []" if "key y = k"
    proof -
      from that False b have "\<forall>z\<in>set (x # xs). key z \<noteq> k" by auto
      then show ?thesis by (simp only: filter_empty_conv)
    qed
    from "3.IH"(2) [OF False "3.prems"(1) sy]
    have ih: "filter (\<lambda>x. key x = k) (fst (merge_spec key (x # xs) ys))
        = filter (\<lambda>x. key x = k) (x # xs) @ filter (\<lambda>x. key x = k) ys" .
    show ?thesis
    proof (cases "key y = k")
      case True
      have "filter (\<lambda>x. key x = k) (fst (merge_spec key (x # xs) (y # ys)))
          = y # filter (\<lambda>x. key x = k) (fst (merge_spec key (x # xs) ys))"
        using True by (simp add: merge_spec_gt [of key x y, OF False] del: merge_spec.simps)
      also have "\<dots> = y # filter (\<lambda>x. key x = k) ys"
        by (simp only: ih e [OF True] append_Nil)
      also have "\<dots> = filter (\<lambda>x. key x = k) (x # xs) @ filter (\<lambda>x. key x = k) (y # ys)"
        using True by (simp only: e [OF True] append_Nil) simp
      finally show ?thesis .
    next
      case ne: False
      have "filter (\<lambda>x. key x = k) (fst (merge_spec key (x # xs) (y # ys)))
          = filter (\<lambda>x. key x = k) (fst (merge_spec key (x # xs) ys))"
        using ne by (simp add: merge_spec_gt [of key x y, OF False] del: merge_spec.simps)
      also have "\<dots> = filter (\<lambda>x. key x = k) (x # xs) @ filter (\<lambda>x. key x = k) (y # ys)"
        using ne by (simp only: ih) simp
      finally show ?thesis .
    qed
  qed
qed

lemma msort_spec_sorted_stable:
  "sorted (map key (fst (msort_spec key xs)))
   \<and> filter (\<lambda>x. key x = k) (fst (msort_spec key xs)) = filter (\<lambda>x. key x = k) xs"
proof (induction key xs rule: msort_spec.induct)
  case (1 key xs)
  show ?case
  proof (cases "length xs \<le> 1")
    case True
    then have "xs = [] \<or> (\<exists>x. xs = [x])"
      by (cases xs) auto
    with True show ?thesis by (auto simp add: msort_spec_small)
  next
    case False
    let ?ls = "take (length xs div 2) xs" and ?rs = "drop (length xs div 2) xs"
    obtain ls m where l: "msort_spec key ?ls = (ls, m)"
      by (cases "msort_spec key ?ls")
    note a = "1.IH"(1) [OF False] and b = "1.IH"(2) [OF False l [symmetric]]
    have "filter (\<lambda>x. key x = k) (fst (msort_spec key xs))
        = filter (\<lambda>x. key x = k) (fst (msort_spec key ?ls))
          @ filter (\<lambda>x. key x = k) (fst (msort_spec key ?rs))"
      using False a b by (simp add: msort_spec_rec filter_merge_spec)
    also have "\<dots> = filter (\<lambda>x. key x = k) ?ls @ filter (\<lambda>x. key x = k) ?rs"
      using a b by simp
    also have "\<dots> = filter (\<lambda>x. key x = k) xs"
      by (simp only: filter_append [symmetric] append_take_drop_id)
    finally have "filter (\<lambda>x. key x = k) (fst (msort_spec key xs)) = filter (\<lambda>x. key x = k) xs" .
    moreover have "sorted (map key (fst (msort_spec key xs)))"
      using False a b by (simp add: msort_spec_rec sorted_merge_spec)
    ultimately show ?thesis by simp
  qed
qed

lemma concat_single:
  "concat (map (\<lambda>j. if j = j0 then F else []) [0..<m]) = (if j0 < m then F else [])"
  by (induction m) auto

lemma filter_zone:
  "filter (\<lambda>x. key x = k) (zone key d xs j)
     = (if j = nat (charAt k d + 1) then filter (\<lambda>x. key x = k) xs else [])"
proof -
  have "filter (\<lambda>x. key x = k) (zone key d xs j)
      = filter (\<lambda>x. key x = k \<and> nat (charAt k d + 1) = j) xs"
    unfolding zone_def bkt_def filter_filter
    by (rule filter_cong) auto
  then show ?thesis by auto
qed

lemma partition_stable:
  assumes "\<forall>x\<in>set xs. bkt key d x \<le> R"
  shows "filter (\<lambda>x. key x = k) (concat (map (zone key d xs) [0..<R + 1]))
    = filter (\<lambda>x. key x = k) xs"
proof -
  let ?j0 = "nat (charAt k d + 1)"
  have "filter (\<lambda>x. key x = k) (concat (map (zone key d xs) [0..<R + 1]))
      = concat (map (\<lambda>j. filter (\<lambda>x. key x = k) (zone key d xs j)) [0..<R + 1])"
    by (simp only: filter_concat map_map comp_def)
  also have "\<dots> = concat (map (\<lambda>j. if j = ?j0 then filter (\<lambda>x. key x = k) xs else []) [0..<R + 1])"
    by (simp only: filter_zone)
  also have "\<dots> = (if ?j0 < R + 1 then filter (\<lambda>x. key x = k) xs else [])"
    by (rule concat_single)
  also have "\<dots> = filter (\<lambda>x. key x = k) xs"
  proof (cases "?j0 < R + 1")
    case True
    then show ?thesis by simp
  next
    case False
    have "filter (\<lambda>x. key x = k) xs = []"
    proof (rule ccontr)
      assume "filter (\<lambda>x. key x = k) xs \<noteq> []"
      then obtain x where x: "x \<in> set xs" "key x = k"
        by (auto simp add: filter_empty_conv)
      with assms have "bkt key d x \<le> R" by blast
      with x False show False by (simp add: bkt_def)
    qed
    with False show ?thesis by simp
  qed
  finally show ?thesis .
qed

lemma radix_spec_stable:
  "ranked key xs \<Longrightarrow>
   filter (\<lambda>x. key x = k) (fst (radix_spec fuel key xs d)) = filter (\<lambda>x. key x = k) xs"
proof (induction fuel arbitrary: xs d)
  case 0
  show ?case by simp
next
  case (Suc n)
  show ?case
  proof (cases "length xs \<le> 1")
    case True
    then show ?thesis by simp
  next
    case False
    define Z where "Z = zone key d xs"
    define F where "F = (\<lambda>j. fst (radix_spec n key (Z j) (d + 1)))"
    have ih: "filter (\<lambda>x. key x = k) (F j) = filter (\<lambda>x. key x = k) (Z j)" for j
      unfolding F_def Z_def by (rule Suc.IH) (rule ranked_zone [OF Suc.prems])
    have bk: "\<forall>x\<in>set xs. bkt key d x \<le> R"
      using ranked_bkt [OF Suc.prems] by blast
    have "fst (radix_spec (Suc n) key xs d) = Z 0 @ concat (map F [Suc 0..<Suc R])"
      using radix_spec_Suc [OF False, of n key d] by (simp only: Z_def F_def fst_conv)
    then have "filter (\<lambda>x. key x = k) (fst (radix_spec (Suc n) key xs d))
        = filter (\<lambda>x. key x = k) (Z 0)
          @ concat (map (\<lambda>j. filter (\<lambda>x. key x = k) (F j)) [Suc 0..<Suc R])"
      by (simp only: filter_append filter_concat map_map comp_def)
    also have "\<dots> = filter (\<lambda>x. key x = k) (Z 0)
          @ concat (map (\<lambda>j. filter (\<lambda>x. key x = k) (Z j)) [Suc 0..<Suc R])"
      by (simp only: ih)
    also have "\<dots> = filter (\<lambda>x. key x = k) (concat (map Z [0..<R + 1]))"
      by (simp only: upt_zones list.map concat.simps filter_append filter_concat map_map comp_def)
    also have "\<dots> = filter (\<lambda>x. key x = k) xs"
      unfolding Z_def by (rule partition_stable [OF bk])
    finally show ?thesis .
  qed
qed

subsection \<open>MsdRadixCutoff against MsdRadixPure\<close>

text \<open>
  C4 fails on the code: on \<open>b, a, a\<close> MsdRadixCutoff returns \<open>a, b, a\<close> and MsdRadixPure
  returns \<open>a, a, b\<close>.  The range is below the cutoff, and \<open>ternaryQuickSortSuffix\<close> holds
  its pivot by reference as \<open>ternaryQuickSort\<close> does.
\<close>

theorem cutoff_differs_from_pure:
  "run std_sort 2 (\<lambda>s. s) [] MsdRadix comps0 [''b'', ''a'', ''a'']
     = Inr (\<lparr>comps = 7\<rparr>, [''a'', ''b'', ''a''], 7)
   \<and> run std_sort 2 (\<lambda>s. s) [] MsdRadixPure comps0 [''b'', ''a'', ''a'']
     = Inr (\<lparr>comps = 5\<rparr>, [''a'', ''a'', ''b''], 5)"
proof -
  have c: "run std_sort 2 (\<lambda>s. s) [] MsdRadix comps0 [''b'', ''a'', ''a'']
     = Inr (\<lparr>comps = 7\<rparr>, [''a'', ''b'', ''a''], 7)"
    by (simp add: run_eval tqss_eval msdRadixSort.simps)
  have r: "ranked (\<lambda>s. s) [''b'', ''a'', ''a'']"
    by (rule no_dot_ranked) simp
  have ca: "charAt ''b'' 0 = 27" "charAt ''a'' 0 = 26" "charAt ''a'' (Suc 0) = - 1"
    by (simp_all add: charAt_def charToIndex_def alpha_def)
  have e: "radix_spec 2 (\<lambda>s. s) [''b'', ''a'', ''a''] 0 = ([''a'', ''a'', ''b''], 5)"
    by (simp add: numeral_2_eq_2 R_def ca upt_conv_Cons)
  have p: "run std_sort 2 (\<lambda>s. s) [] MsdRadixPure comps0 [''b'', ''a'', ''a'']
     = Inr (\<lparr>comps = 5\<rparr>, [''a'', ''a'', ''b''], 5)"
    using run_msdRadixSortPure [OF r, of 2 std_sort "[]" comps0] by (simp add: e)
  from c p show ?thesis by simp
qed

subsection \<open>Stability\<close>

text \<open>
  Elements here are strings with a mark, compared by their string alone.  C5, as the
  claim states it, fails for MsdRadixCutoff: below the cutoff the three-way partition
  exchanges the first of two equal strings with a smaller one behind them, and the
  two \<open>b\<close> come out in reverse order.
\<close>

theorem cutoff_unstable_counterexample:
  "run (\<lambda>xs. (xs, 0)) 0 fst ([], 0) MsdRadix 0 [(''b'', 0::nat), (''b'', 1), (''a'', 2)]
     = Inr (\<lparr>comps = 7\<rparr>, [(''a'', 2), (''b'', 1), (''b'', 0)], 7)
   \<and> filter (\<lambda>x. fst x = ''b'') [(''a'', 2::nat), (''b'', 1), (''b'', 0)]
     \<noteq> filter (\<lambda>x. fst x = ''b'') [(''b'', 0), (''b'', 1), (''a'', 2)]"
  by (simp add: run_eval tqss_eval msdRadixSort.simps)

text \<open>
  C5 (amended): PrefixMergeSort is stable on every vector, and MsdRadixPure is stable on
  every vector none of whose strings contains the character \<open>.\<close> (the depth bound of the
  model being larger than the length of every string): each of them returns, and the
  elements with any given string are in the result in the order they had in the
  input.  MsdRadixCutoff is not stable, since it finishes small ranges with the
  three-way quicksort.
\<close>

theorem stable_sorts:
  "(\<exists>res arr' c. run std_sort fuel key emp StdMergeLCP comps0 arr = Inr (res, arr', c)
      \<and> (\<forall>k. filter (\<lambda>x. key x = k) arr' = filter (\<lambda>x. key x = k) arr))
   \<and> ((\<forall>x\<in>set arr. CHR ''.'' \<notin> set (key x)) \<and> (\<forall>x\<in>set arr. length (key x) < fuel) \<longrightarrow>
       (\<exists>res arr' c. run std_sort fuel key emp MsdRadixPure comps0 arr = Inr (res, arr', c)
          \<and> (\<forall>k. filter (\<lambda>x. key x = k) arr' = filter (\<lambda>x. key x = k) arr)))"
proof (intro conjI impI)
  show "\<exists>res arr' c. run std_sort fuel key emp StdMergeLCP comps0 arr = Inr (res, arr', c)
      \<and> (\<forall>k. filter (\<lambda>x. key x = k) arr' = filter (\<lambda>x. key x = k) arr)"
    using run_mergeSortLCP [of std_sort fuel key emp comps0 arr] msort_spec_sorted_stable [of key arr]
    by blast
next
  assume a: "(\<forall>x\<in>set arr. CHR ''.'' \<notin> set (key x)) \<and> (\<forall>x\<in>set arr. length (key x) < fuel)"
  then have r: "ranked key arr" by (intro no_dot_ranked) blast
  have f: "length arr \<le> 1 \<or> (0 < fuel \<and> (\<forall>x\<in>set arr. length (key x) < fuel))"
  proof (cases arr)
    case Nil
    then show ?thesis by simp
  next
    case (Cons x xs)
    with a have "length (key x) < fuel" by simp
    then have "0 < fuel" by simp
    with a show ?thesis by blast
  qed
  from run_msdRadixSortPure [OF r f, of std_sort emp comps0] radix_spec_stable [OF r, of _ fuel 0]
  show "\<exists>res arr' c. run std_sort fuel key emp MsdRadixPure comps0 arr = Inr (res, arr', c)
      \<and> (\<forall>k. filter (\<lambda>x. key x = k) arr' = filter (\<lambda>x. key x = k) arr)"
    by blast
qed

theorem stable_sorts_witness:
  "CHR ''.'' \<notin> set ''a'' \<and> CHR ''.'' \<notin> set ''b'' \<and> length ''a'' < 2 \<and> length ''b'' < 2
   \<and> (\<exists>res arr' c.
        run (\<lambda>xs. (xs, 0)) 2 fst ([], 0) StdMergeLCP 0 [(''b'', 0::nat), (''a'', 1), (''b'', 2), (''a'', 3)]
          = Inr (res, arr', c)
        \<and> (\<forall>k. filter (\<lambda>x. fst x = k) arr'
              = filter (\<lambda>x. fst x = k) [(''b'', 0), (''a'', 1), (''b'', 2), (''a'', 3)]))
   \<and> (\<exists>res arr' c.
        run (\<lambda>xs. (xs, 0)) 2 fst ([], 0) MsdRadixPure 0 [(''b'', 0::nat), (''a'', 1), (''b'', 2), (''a'', 3)]
          = Inr (res, arr', c)
        \<and> (\<forall>k. filter (\<lambda>x. fst x = k) arr'
              = filter (\<lambda>x. fst x = k) [(''b'', 0), (''a'', 1), (''b'', 2), (''a'', 3)]))"
proof -
  have h0: "CHR ''.'' \<notin> set ''a'' \<and> CHR ''.'' \<notin> set ''b'' \<and> length ''a'' < 2 \<and> length ''b'' < 2"
    by simp
  then have h: "(\<forall>x\<in>set [(''b'', 0::nat), (''a'', 1), (''b'', 2), (''a'', 3)]. CHR ''.'' \<notin> set (fst x))
      \<and> (\<forall>x\<in>set [(''b'', 0::nat), (''a'', 1), (''b'', 2), (''a'', 3)]. length (fst x) < 2)"
    by simp
  from stable_sorts [of "\<lambda>xs. (xs, 0)" 2 fst "([], 0)" 0
      "[(''b'', 0::nat), (''a'', 1), (''b'', 2), (''a'', 3)]"] h h0
  show ?thesis by blast
qed

end
